theory Spec2Isabelle
  imports Main "HOL-Library.Word"
begin

section \<open>JavaScript strings\<close>

text \<open>
  A JavaScript string is a sequence of 16-bit code units. String literals of the source
  are written with \<open>js\<close>, which maps every ASCII character to its code unit.
\<close>

type_synonym js_char = "16 word"
type_synonym js_string = "js_char list"

definition js :: "string \<Rightarrow> js_string" where
  "js s = map of_char s"

text \<open>
  \<open>String.prototype.trim\<close> strips the code units of the ECMAScript productions WhiteSpace
  and LineTerminator from both ends; the class \<open>\s\<close> of a regular expression is the same
  set.
\<close>

definition is_white :: "js_char \<Rightarrow> bool" where
  "is_white c \<longleftrightarrow>
     c = 0x9 \<or> c = 0xA \<or> c = 0xB \<or> c = 0xC \<or> c = 0xD \<or> c = 0x20 \<or> c = 0xA0 \<or>
     c = 0x1680 \<or> (0x2000 \<le> c \<and> c \<le> 0x200A) \<or> c = 0x2028 \<or> c = 0x2029 \<or>
     c = 0x202F \<or> c = 0x205F \<or> c = 0x3000 \<or> c = 0xFEFF"

definition trim :: "js_string \<Rightarrow> js_string" where
  "trim s = rev (dropWhile is_white (rev (dropWhile is_white s)))"

section \<open>Contact form validator (js/contact-form.js)\<close>

subsection \<open>The patterns of the validation rules\<close>

text \<open>
  Both patterns of \<open>FORM_CONFIG.validationRules\<close> have the shape \<open>^ p1 p2 ... pn $\<close>
  where every piece is a literal character or a character class, taken once or with \<open>+\<close>.
  Neither carries a flag, so \<open>^\<close> and \<open>$\<close> match only at the two ends of the input and
  \<open>test\<close> succeeds exactly when the pieces consume the whole string.
\<close>

datatype class_item = Range js_char js_char | Space | Lit js_char

datatype atom = Single js_char | Class "class_item list" | NegClass "class_item list"

datatype piece = Once atom | Plus atom

type_synonym pattern = "piece list"

fun item_matches :: "class_item \<Rightarrow> js_char \<Rightarrow> bool" where
  "item_matches (Range lo hi) c = (lo \<le> c \<and> c \<le> hi)"
| "item_matches Space c = is_white c"
| "item_matches (Lit d) c = (c = d)"

fun atom_matches :: "atom \<Rightarrow> js_char \<Rightarrow> bool" where
  "atom_matches (Single d) c = (c = d)"
| "atom_matches (Class items) c = list_ex (\<lambda>i. item_matches i c) items"
| "atom_matches (NegClass items) c = (\<not> list_ex (\<lambda>i. item_matches i c) items)"

text \<open>
  \<open>pattern_test p s\<close>: the pieces of \<open>p\<close> match all of \<open>s\<close>. A \<open>+\<close> piece takes one
  character and then either hands over to the rest of the pattern or takes another, which
  covers every way the backtracking matcher of the engine can split the input.
\<close>

fun pattern_test :: "pattern \<Rightarrow> js_string \<Rightarrow> bool" where
  "pattern_test [] [] = True"
| "pattern_test [] (c # cs) = False"
| "pattern_test (p # ps) [] = False"
| "pattern_test (Once a # ps) (c # cs) = (atom_matches a c \<and> pattern_test ps cs)"
| "pattern_test (Plus a # ps) (c # cs) =
     (atom_matches a c \<and> (pattern_test ps cs \<or> pattern_test (Plus a # ps) cs))"

text \<open>\<open>/^[a-zA-Z\s]+$/\<close>\<close>

definition name_pattern :: pattern where
  "name_pattern = [Plus (Class [Range 0x61 0x7A, Range 0x41 0x5A, Space])]"

text \<open>\<open>/^[^\s@]+@[^\s@]+\.[^\s@]+$/\<close>\<close>

definition email_pattern :: pattern where
  "email_pattern =
     [Plus (NegClass [Space, Lit 0x40]), Once (Single 0x40),
      Plus (NegClass [Space, Lit 0x40]), Once (Single 0x2E),
      Plus (NegClass [Space, Lit 0x40])]"

subsection \<open>Rules and fields\<close>

text \<open>
  A rule record of \<open>FORM_CONFIG.validationRules\<close>; a property the source leaves out is
  \<open>None\<close> (\<open>undefined\<close> in the source, which is falsy). The lookup by field name
  finds a rule for the four names of the configuration. For a name that the object
  inherits from its prototype the lookup gives an object without any of the properties of
  a rule, and \<open>validateField\<close> then returns what it returns without a rule, so these
  names are \<open>None\<close> too.
\<close>

record rule =
  required :: bool
  minLength :: "nat option"
  maxLength :: "nat option"
  pattern :: "pattern option"
  message :: js_string

definition validationRules :: "js_string \<Rightarrow> rule option" where
  "validationRules fieldName =
     (if fieldName = js ''name'' then
        Some \<lparr>required = True, minLength = Some 2, maxLength = None,
              pattern = Some name_pattern,
              message = js ''Please enter a valid name (letters only, min 2 characters)''\<rparr>
      else if fieldName = js ''email'' then
        Some \<lparr>required = True, minLength = None, maxLength = None,
              pattern = Some email_pattern,
              message = js ''Please enter a valid email address''\<rparr>
      else if fieldName = js ''subject'' then
        Some \<lparr>required = True, minLength = Some 5, maxLength = None,
              pattern = None,
              message = js ''Subject must be at least 5 characters long''\<rparr>
      else if fieldName = js ''message'' then
        Some \<lparr>required = True, minLength = Some 10, maxLength = Some 1000,
              pattern = None,
              message = js ''Message must be between 10 and 1000 characters''\<rparr>
      else None)"

text \<open>The two properties of a form element that \<open>validateField\<close> reads.\<close>

record field =
  name :: js_string
  val :: js_string

record validation =
  isValid :: bool
  msg :: js_string

text \<open>
  \<open>fieldName.charAt(0).toUpperCase() + fieldName.slice(1)\<close>. The expression is evaluated
  only for a field name that has a rule, so its first character is one of the ASCII
  letters \<open>n\<close>, \<open>e\<close>, \<open>s\<close>, \<open>m\<close>; \<open>toUpperCase\<close> is modelled on the ASCII letters.
\<close>

definition toUpperCase :: "js_char \<Rightarrow> js_char" where
  "toUpperCase c = (if 0x61 \<le> c \<and> c \<le> 0x7A then c - 0x20 else c)"

fun capitalize :: "js_string \<Rightarrow> js_string" where
  "capitalize [] = []"
| "capitalize (c # cs) = toUpperCase c # cs"

text \<open>
  \<open>validateField\<close>, lines 48 to 78. A number is truthy when it is not zero, so a
  \<open>minLength\<close> or \<open>maxLength\<close> of 0 switches its check off as a missing one does.
\<close>

definition validateField :: "field \<Rightarrow> validation" where
  "validateField fld =
     (let fieldName = name fld;
          fieldValue = trim (val fld)
      in case validationRules fieldName of
           None \<Rightarrow> \<lparr>isValid = True, msg = []\<rparr>
         | Some rules \<Rightarrow>
             if required rules \<and> fieldValue = [] then
               \<lparr>isValid = False, msg = capitalize fieldName @ js '' is required''\<rparr>
             else if (case minLength rules of None \<Rightarrow> False
                      | Some n \<Rightarrow> n \<noteq> 0 \<and> length fieldValue < n) then
               \<lparr>isValid = False, msg = message rules\<rparr>
             else if (case maxLength rules of None \<Rightarrow> False
                      | Some n \<Rightarrow> n \<noteq> 0 \<and> length fieldValue > n) then
               \<lparr>isValid = False, msg = message rules\<rparr>
             else if (case pattern rules of None \<Rightarrow> False
                      | Some p \<Rightarrow> \<not> pattern_test p fieldValue) then
               \<lparr>isValid = False, msg = message rules\<rparr>
             else \<lparr>isValid = True, msg = []\<rparr>)"

section \<open>Fetching a static JSON resource\<close>

text \<open>
  What the environment answers to one \<open>fetch\<close>: the promise rejects (network error), or
  a response arrives with a status and a body that either fails to parse or parses to a
  JSON value. Of the parsed value the loaders read one property (\<open>projects\<close>,
  \<open>images\<close>): \<open>JNull\<close> is the value \<open>null\<close>, whose property access throws;
  \<open>JObject None\<close> is any value whose property is missing or falsy; \<open>JObject (Some xs)\<close>
  is an object whose property is the array \<open>xs\<close>. A property holding a truthy value that
  is not an array is outside the model, and so are records that lack the properties the
  card builders read.
\<close>

datatype js_error = NetworkError | HttpError nat | SyntaxError | TypeError

datatype 'r payload = JNull | JObject "'r list option"

datatype 'r body = Malformed | Parsed "'r payload"

datatype 'r fetch_outcome = Rejected | Response nat "'r body"

definition response_ok :: "nat \<Rightarrow> bool" where
  "response_ok status \<longleftrightarrow> 200 \<le> status \<and> status \<le> 299"

text \<open>
  \<open>await fetch(url)\<close>, the check of \<open>response.ok\<close> and \<open>await response.json()\<close>:
  an error of each of the three steps is the left summand.
\<close>

fun fetch_json :: "'r fetch_outcome \<Rightarrow> js_error + 'r payload" where
  "fetch_json Rejected = Inl NetworkError"
| "fetch_json (Response status b) =
     (if \<not> response_ok status then Inl (HttpError status)
      else case b of Malformed \<Rightarrow> Inl SyntaxError | Parsed data \<Rightarrow> Inr data)"

text \<open>
  \<open>Array.prototype.slice(start, end)\<close>: a negative index counts from the end of the
  array, both indices are clamped to the array, and an empty range gives the empty array.
\<close>

definition js_slice :: "'a list \<Rightarrow> int \<Rightarrow> int \<Rightarrow> 'a list" where
  "js_slice xs start stop =
     (let len = int (length xs);
          k = (if start < 0 then max (len + start) 0 else min start len);
          final = (if stop < 0 then max (len + stop) 0 else min stop len)
      in take (nat (final - k)) (drop (nat k) xs))"

section \<open>Projects loader (js/projects.js) and gallery loader (js/gallery.js)\<close>

text \<open>
  The children of a grid container: what the page's markup put there, the loading
  message, the error message with its Retry button, and the card (or gallery item) built
  from a record. The style property \<open>display\<close> of a "load more" button is either
  untouched or \<open>none\<close>.
\<close>

datatype 'r node = Markup | LoadingMessage | ErrorMessage | Card 'r

datatype display = Visible | DisplayNone

text \<open>
  The module state of the projects loader and the two elements of the document it
  touches; an element the document does not have is \<open>None\<close>. \<open>projects_fetches\<close>
  counts the calls of \<open>fetch\<close>.
\<close>

record 'r projects_state =
  projectsLoaded :: nat
  allProjects :: "'r list"
  projects_grid :: "'r node list option"
  load_more_projects :: "display option"
  projects_fetches :: nat

definition projectsPerLoad :: int where
  "projectsPerLoad = 6"

text \<open>The \<open>forEach\<close> of lines 146 to 155: append a card, count it.\<close>

primrec render_projects :: "'r list \<Rightarrow> 'r projects_state \<Rightarrow> 'r projects_state" where
  "render_projects [] s = s"
| "render_projects (project # rest) s =
     render_projects rest
       (s\<lparr>projects_grid := map_option (\<lambda>g. g @ [Card project]) (projects_grid s),
          projectsLoaded := Suc (projectsLoaded s)\<rparr>)"

text \<open>
  The body of the \<open>try\<close> block of \<open>loadProjects\<close>, lines 119 to 165: the error thrown,
  if any, and the state at that moment.
\<close>

definition loadProjects_try ::
  "int \<Rightarrow> 'r fetch_outcome \<Rightarrow> 'r projects_state \<Rightarrow> js_error option \<times> 'r projects_state" where
  "loadProjects_try count outcome s =
     (let fetched =
            (if allProjects s = [] then
               (let s1 = s\<lparr>projects_grid := Some [LoadingMessage],
                            projects_fetches := Suc (projects_fetches s)\<rparr>
                in case fetch_json outcome of
                     Inl e \<Rightarrow> (Some e, s1)
                   | Inr JNull \<Rightarrow> (Some TypeError, s1)
                   | Inr (JObject prop) \<Rightarrow>
                       (None, s1\<lparr>allProjects := rev (case prop of None \<Rightarrow> [] | Some xs \<Rightarrow> xs),
                                  projects_grid := Some []\<rparr>))
             else (None, s))
      in case fetched of
           (Some e, s2) \<Rightarrow> (Some e, s2)
         | (None, s2) \<Rightarrow>
             (let endIndex = min (int (projectsLoaded s2) + count) (int (length (allProjects s2)));
                  projectsToLoad = js_slice (allProjects s2) (int (projectsLoaded s2)) endIndex;
                  s3 = render_projects projectsToLoad s2
              in (None,
                  if projectsLoaded s3 \<ge> length (allProjects s3)
                  then s3\<lparr>load_more_projects := map_option (\<lambda>_. DisplayNone) (load_more_projects s3)\<rparr>
                  else s3)))"

text \<open>
  \<open>loadProjects\<close>, lines 111 to 178, when no other code runs while it waits: without a
  grid container it returns at once; an error of the \<open>try\<close> block is caught and the
  grid's content replaced.
\<close>

definition loadProjects :: "int \<Rightarrow> 'r fetch_outcome \<Rightarrow> 'r projects_state \<Rightarrow> 'r projects_state" where
  "loadProjects count outcome s =
     (case projects_grid s of
        None \<Rightarrow> s
      | Some _ \<Rightarrow>
          (case loadProjects_try count outcome s of
             (None, s') \<Rightarrow> s'
           | (Some e, s') \<Rightarrow> s'\<lparr>projects_grid := Some [ErrorMessage]\<rparr>))"

text \<open>
  \<open>loadProjects\<close> is an \<open>async\<close> function, and the page does not wait for it: while an
  invocation waits for its fetch, a click or a call of the API starts another one. So the
  function is also given in the two parts between which other code can run. The first
  part runs up to \<open>await fetch\<close>: with an array in memory it runs to the end of the
  function; with none it shows the loading message, fetches, and leaves the invocation
  pending with its \<open>count\<close>. The second part runs from the answer on: it reads the
  variables as they are by then. The check of \<open>response.ok\<close> between the two
  \<open>await\<close>s touches no state, so the two waits are one.
\<close>

text \<open>Lines 141 to 163: take the slice, render it, hide the button when all is loaded.\<close>

definition loadProjects_show :: "int \<Rightarrow> 'r projects_state \<Rightarrow> 'r projects_state" where
  "loadProjects_show count s =
     (let endIndex = min (int (projectsLoaded s) + count) (int (length (allProjects s)));
          projectsToLoad = js_slice (allProjects s) (int (projectsLoaded s)) endIndex;
          s3 = render_projects projectsToLoad s
      in if projectsLoaded s3 \<ge> length (allProjects s3)
         then s3\<lparr>load_more_projects := map_option (\<lambda>_. DisplayNone) (load_more_projects s3)\<rparr>
         else s3)"

text \<open>Lines 112 to 125, and for an array in memory on to the end: the state, and the
  \<open>count\<close> of the invocation when it is left pending.\<close>

definition loadProjects_start :: "int \<Rightarrow> 'r projects_state \<Rightarrow> 'r projects_state \<times> int option" where
  "loadProjects_start count s =
     (case projects_grid s of
        None \<Rightarrow> (s, None)
      | Some _ \<Rightarrow>
          if allProjects s = [] then
            (s\<lparr>projects_grid := Some [LoadingMessage],
               projects_fetches := Suc (projects_fetches s)\<rparr>, Some count)
          else (loadProjects_show count s, None))"

text \<open>
  Lines 125 to 177 for a pending invocation, from the answer to its fetch on. The grid
  is the element the invocation found when it started.
\<close>

definition loadProjects_resume ::
  "int \<Rightarrow> 'r fetch_outcome \<Rightarrow> 'r projects_state \<Rightarrow> 'r projects_state" where
  "loadProjects_resume count outcome s =
     (case fetch_json outcome of
        Inl e \<Rightarrow> s\<lparr>projects_grid := Some [ErrorMessage]\<rparr>
      | Inr JNull \<Rightarrow> s\<lparr>projects_grid := Some [ErrorMessage]\<rparr>
      | Inr (JObject prop) \<Rightarrow>
          loadProjects_show count
            (s\<lparr>allProjects := rev (case prop of None \<Rightarrow> [] | Some xs \<Rightarrow> xs),
               projects_grid := Some []\<rparr>))"

text \<open>The same for the gallery loader.\<close>

record 'r gallery_state =
  imagesLoaded :: nat
  allImages :: "'r list"
  gallery_grid :: "'r node list option"
  load_more :: "display option"
  gallery_fetches :: nat

definition imagesPerLoad :: int where
  "imagesPerLoad = 6"

primrec render_images :: "'r list \<Rightarrow> 'r gallery_state \<Rightarrow> 'r gallery_state" where
  "render_images [] s = s"
| "render_images (imageData # rest) s =
     render_images rest
       (s\<lparr>gallery_grid := map_option (\<lambda>g. g @ [Card imageData]) (gallery_grid s),
          imagesLoaded := Suc (imagesLoaded s)\<rparr>)"

text \<open>The \<open>try\<close> block of \<open>loadImages\<close>, lines 80 to 112.\<close>

definition loadImages_try ::
  "int \<Rightarrow> 'r fetch_outcome \<Rightarrow> 'r gallery_state \<Rightarrow> js_error option \<times> 'r gallery_state" where
  "loadImages_try count outcome s =
     (let fetched =
            (if allImages s = [] then
               (let s1 = s\<lparr>gallery_fetches := Suc (gallery_fetches s)\<rparr>
                in case fetch_json outcome of
                     Inl e \<Rightarrow> (Some e, s1)
                   | Inr JNull \<Rightarrow> (Some TypeError, s1)
                   | Inr (JObject prop) \<Rightarrow>
                       (None, s1\<lparr>allImages := (case prop of None \<Rightarrow> [] | Some xs \<Rightarrow> xs)\<rparr>))
             else (None, s))
      in case fetched of
           (Some e, s2) \<Rightarrow> (Some e, s2)
         | (None, s2) \<Rightarrow>
             (let endIndex = min (int (imagesLoaded s2) + count) (int (length (allImages s2)));
                  imagesToLoad = js_slice (allImages s2) (int (imagesLoaded s2)) endIndex;
                  s3 = render_images imagesToLoad s2
              in (None,
                  if imagesLoaded s3 \<ge> length (allImages s3)
                  then s3\<lparr>load_more := map_option (\<lambda>_. DisplayNone) (load_more s3)\<rparr>
                  else s3)))"

text \<open>\<open>loadImages\<close>, lines 72 to 126, when no other code runs while it waits.\<close>

definition loadImages :: "int \<Rightarrow> 'r fetch_outcome \<Rightarrow> 'r gallery_state \<Rightarrow> 'r gallery_state" where
  "loadImages count outcome s =
     (case gallery_grid s of
        None \<Rightarrow> s
      | Some _ \<Rightarrow>
          (case loadImages_try count outcome s of
             (None, s') \<Rightarrow> s'
           | (Some e, s') \<Rightarrow> s'\<lparr>gallery_grid := Some [ErrorMessage]\<rparr>))"

text \<open>The two parts of \<open>loadImages\<close>, as for the projects: lines 93 to 110, lines 73
  to 83, and lines 83 to 125.\<close>

definition loadImages_show :: "int \<Rightarrow> 'r gallery_state \<Rightarrow> 'r gallery_state" where
  "loadImages_show count s =
     (let endIndex = min (int (imagesLoaded s) + count) (int (length (allImages s)));
          imagesToLoad = js_slice (allImages s) (int (imagesLoaded s)) endIndex;
          s3 = render_images imagesToLoad s
      in if imagesLoaded s3 \<ge> length (allImages s3)
         then s3\<lparr>load_more := map_option (\<lambda>_. DisplayNone) (load_more s3)\<rparr>
         else s3)"

definition loadImages_start :: "int \<Rightarrow> 'r gallery_state \<Rightarrow> 'r gallery_state \<times> int option" where
  "loadImages_start count s =
     (case gallery_grid s of
        None \<Rightarrow> (s, None)
      | Some _ \<Rightarrow>
          if allImages s = [] then
            (s\<lparr>gallery_fetches := Suc (gallery_fetches s)\<rparr>, Some count)
          else (loadImages_show count s, None))"

definition loadImages_resume ::
  "int \<Rightarrow> 'r fetch_outcome \<Rightarrow> 'r gallery_state \<Rightarrow> 'r gallery_state" where
  "loadImages_resume count outcome s =
     (case fetch_json outcome of
        Inl e \<Rightarrow> s\<lparr>gallery_grid := Some [ErrorMessage]\<rparr>
      | Inr JNull \<Rightarrow> s\<lparr>gallery_grid := Some [ErrorMessage]\<rparr>
      | Inr (JObject prop) \<Rightarrow>
          loadImages_show count
            (s\<lparr>allImages := (case prop of None \<Rightarrow> [] | Some xs \<Rightarrow> xs)\<rparr>))"

subsection \<open>Schedules of invocations\<close>

text \<open>
  The entry points of a loader: \<open>Load count\<close> is \<open>loadProjects(count)\<close> or
  \<open>loadImages(count)\<close>; \<open>LoadMore\<close> is the call without an argument, which the page
  makes when it loads, when the "load more" button is clicked and when Retry is clicked;
  \<open>Reload\<close> is \<open>reload()\<close>.
\<close>

datatype invocation = Load int | LoadMore | Reload

text \<open>
  What happens on the page, one event after the other: an entry point is invoked and
  runs until it returns or waits, or the fetch of the pending invocation at a given place
  of the queue is answered and the invocation runs to its end. Invocations overlap when
  an \<open>Invoke\<close> comes before the \<open>Settle\<close> of an earlier one; the answers may come
  in any order. A \<open>Settle\<close> for a place that holds no pending invocation changes nothing.
\<close>

datatype 'r event = Invoke invocation | Settle nat "'r fetch_outcome"

text \<open>A loader's state together with the counts of its pending invocations.\<close>

definition projects_invoke ::
  "int \<Rightarrow> 'r projects_state \<times> int list \<Rightarrow> 'r projects_state \<times> int list" where
  "projects_invoke count sp =
     (case loadProjects_start count (fst sp) of
        (s1, None) \<Rightarrow> (s1, snd sp)
      | (s1, Some c) \<Rightarrow> (s1, snd sp @ [c]))"

text \<open>
  \<open>window.Projects.reload\<close>, lines 295 to 300: reset the two variables, empty the grid,
  and call \<open>loadProjects()\<close>, which is left pending. Without a grid container the
  assignment to \<open>innerHTML\<close> throws, after the two variables have been reset.
\<close>

definition Projects_reload ::
  "'r projects_state \<times> int list \<Rightarrow> js_error option \<times> ('r projects_state \<times> int list)" where
  "Projects_reload sp =
     (let s1 = (fst sp)\<lparr>projectsLoaded := 0, allProjects := []\<rparr>
      in case projects_grid s1 of
           None \<Rightarrow> (Some TypeError, (s1, snd sp))
         | Some _ \<Rightarrow>
             (None, projects_invoke projectsPerLoad (s1\<lparr>projects_grid := Some []\<rparr>, snd sp)))"

fun projects_event ::
  "'r event \<Rightarrow> 'r projects_state \<times> int list \<Rightarrow> 'r projects_state \<times> int list" where
  "projects_event (Invoke (Load count)) sp = projects_invoke count sp"
| "projects_event (Invoke LoadMore) sp = projects_invoke projectsPerLoad sp"
| "projects_event (Invoke Reload) sp = snd (Projects_reload sp)"
| "projects_event (Settle i outcome) (s, pending) =
     (if i < length pending
      then (loadProjects_resume (pending ! i) outcome s, take i pending @ drop (Suc i) pending)
      else (s, pending))"

fun projects_run ::
  "'r projects_state \<times> int list \<Rightarrow> 'r event list \<Rightarrow> 'r projects_state \<times> int list" where
  "projects_run sp [] = sp"
| "projects_run sp (e # rest) = projects_run (projects_event e sp) rest"

definition gallery_invoke ::
  "int \<Rightarrow> 'r gallery_state \<times> int list \<Rightarrow> 'r gallery_state \<times> int list" where
  "gallery_invoke count sp =
     (case loadImages_start count (fst sp) of
        (s1, None) \<Rightarrow> (s1, snd sp)
      | (s1, Some c) \<Rightarrow> (s1, snd sp @ [c]))"

text \<open>\<open>window.Gallery.reload\<close>, lines 230 to 235.\<close>

definition Gallery_reload ::
  "'r gallery_state \<times> int list \<Rightarrow> js_error option \<times> ('r gallery_state \<times> int list)" where
  "Gallery_reload sp =
     (let s1 = (fst sp)\<lparr>imagesLoaded := 0, allImages := []\<rparr>
      in case gallery_grid s1 of
           None \<Rightarrow> (Some TypeError, (s1, snd sp))
         | Some _ \<Rightarrow>
             (None, gallery_invoke imagesPerLoad (s1\<lparr>gallery_grid := Some []\<rparr>, snd sp)))"

fun gallery_event ::
  "'r event \<Rightarrow> 'r gallery_state \<times> int list \<Rightarrow> 'r gallery_state \<times> int list" where
  "gallery_event (Invoke (Load count)) sp = gallery_invoke count sp"
| "gallery_event (Invoke LoadMore) sp = gallery_invoke imagesPerLoad sp"
| "gallery_event (Invoke Reload) sp = snd (Gallery_reload sp)"
| "gallery_event (Settle i outcome) (s, pending) =
     (if i < length pending
      then (loadImages_resume (pending ! i) outcome s, take i pending @ drop (Suc i) pending)
      else (s, pending))"

fun gallery_run ::
  "'r gallery_state \<times> int list \<Rightarrow> 'r event list \<Rightarrow> 'r gallery_state \<times> int list" where
  "gallery_run sp [] = sp"
| "gallery_run sp (e # rest) = gallery_run (gallery_event e sp) rest"

text \<open>
  The state when the script starts: nothing loaded, nothing fetched; the grid and the
  button are as the markup has them.
\<close>

definition projects_init :: "'r node list option \<Rightarrow> display option \<Rightarrow> 'r projects_state" where
  "projects_init g b =
     \<lparr>projectsLoaded = 0, allProjects = [], projects_grid = g, load_more_projects = b,
      projects_fetches = 0\<rparr>"

definition gallery_init :: "'r node list option \<Rightarrow> display option \<Rightarrow> 'r gallery_state" where
  "gallery_init g b =
     \<lparr>imagesLoaded = 0, allImages = [], gallery_grid = g, load_more = b,
      gallery_fetches = 0\<rparr>"

text \<open>The records whose cards a grid shows, in order.\<close>

fun cards :: "'r node list option \<Rightarrow> 'r list" where
  "cards None = []"
| "cards (Some []) = []"
| "cards (Some (Card r # ns)) = r # cards (Some ns)"
| "cards (Some (n # ns)) = cards (Some ns)"

subsection \<open>Notions for the properties of the loaders\<close>

text \<open>
  The array an answer delivers to a loader, \<open>data.projects || []\<close>, when the three steps
  of \<open>fetch_json\<close> and the property access succeed.
\<close>

definition fetched_array :: "'r fetch_outcome \<Rightarrow> 'r list option" where
  "fetched_array outcome =
     (case fetch_json outcome of
        Inl e \<Rightarrow> None
      | Inr JNull \<Rightarrow> None
      | Inr (JObject None) \<Rightarrow> Some []
      | Inr (JObject (Some xs)) \<Rightarrow> Some xs)"

text \<open>
  The slice one invocation takes: \<open>xs.slice(loaded, Math.min(loaded + count, xs.length))\<close>.
\<close>

definition page :: "'a list \<Rightarrow> nat \<Rightarrow> int \<Rightarrow> 'a list" where
  "page xs loaded count = js_slice xs (int loaded) (min (int loaded + count) (int (length xs)))"

text \<open>
  A schedule without \<open>reload\<close> in which every fetch that succeeds delivers the array
  \<open>xs\<close>: the JSON resource is static. A schedule of load-more invocations against a
  static resource. A schedule in which every answer delivers the empty array.
\<close>

fun static_event :: "'r list \<Rightarrow> 'r event \<Rightarrow> bool" where
  "static_event xs (Invoke call) = (call \<noteq> Reload)"
| "static_event xs (Settle i outcome) =
     (fetched_array outcome = None \<or> fetched_array outcome = Some xs)"

definition static_calls :: "'r list \<Rightarrow> 'r event list \<Rightarrow> bool" where
  "static_calls xs events = list_all (static_event xs) events"

fun load_more_event :: "'r list \<Rightarrow> 'r event \<Rightarrow> bool" where
  "load_more_event xs (Invoke call) = (call = LoadMore)"
| "load_more_event xs (Settle i outcome) =
     (fetched_array outcome = None \<or> fetched_array outcome = Some xs)"

definition load_more_calls :: "'r list \<Rightarrow> 'r event list \<Rightarrow> bool" where
  "load_more_calls xs events = list_all (load_more_event xs) events"

fun empty_answer :: "'r event \<Rightarrow> bool" where
  "empty_answer (Invoke call) = True"
| "empty_answer (Settle i outcome) = (fetched_array outcome = Some [])"

definition empty_answers :: "'r event list \<Rightarrow> bool" where
  "empty_answers events = list_all empty_answer events"

fun is_invoke :: "'r event \<Rightarrow> bool" where
  "is_invoke (Invoke call) = True"
| "is_invoke (Settle i outcome) = False"

text \<open>
  What every event of a load-more schedule against a static resource \<open>xs\<close> keeps, with
  \<open>ys\<close> the array as the loader stores it: the array in memory is empty or \<open>ys\<close>, the
  counter stays within it, and the cards of the grid are consecutive records of \<open>ys\<close>
  that end where the counter stands.
\<close>

definition segment_inv :: "'r list \<Rightarrow> 'r list \<Rightarrow> nat \<Rightarrow> 'r list \<Rightarrow> bool" where
  "segment_inv ys held loaded shown \<longleftrightarrow>
     (held = [] \<or> held = ys) \<and> loaded \<le> length held \<and> length shown \<le> loaded \<and>
     shown = drop (loaded - length shown) (take loaded ys)"

definition projects_inv :: "'r list \<Rightarrow> 'r projects_state \<Rightarrow> bool" where
  "projects_inv xs s \<longleftrightarrow>
     segment_inv (rev xs) (allProjects s) (projectsLoaded s) (cards (projects_grid s))"

definition gallery_inv :: "'r list \<Rightarrow> 'r gallery_state \<Rightarrow> bool" where
  "gallery_inv xs s \<longleftrightarrow>
     segment_inv xs (allImages s) (imagesLoaded s) (cards (gallery_grid s))"

text \<open>
  Two facts about the "load more" button that every event keeps. The first: the button
  exists and, once a non-empty array is in memory and fully loaded, it is hidden. The
  second, for a static resource delivering \<open>xs\<close>: a hidden button means that everything
  is loaded.
\<close>

definition projects_hide_inv :: "'r projects_state \<Rightarrow> bool" where
  "projects_hide_inv s \<longleftrightarrow>
     load_more_projects s \<noteq> None \<and>
     (allProjects s = [] \<or> projectsLoaded s \<noteq> length (allProjects s) \<or>
      load_more_projects s = Some DisplayNone)"

definition projects_show_inv :: "'r list \<Rightarrow> 'r projects_state \<Rightarrow> bool" where
  "projects_show_inv xs s \<longleftrightarrow>
     (allProjects s = [] \<or> allProjects s = rev xs) \<and>
     projectsLoaded s \<le> length (allProjects s) \<and>
     (load_more_projects s \<noteq> Some DisplayNone \<or>
      (projectsLoaded s = length (allProjects s) \<and> (allProjects s \<noteq> [] \<or> xs = [])))"

definition gallery_hide_inv :: "'r gallery_state \<Rightarrow> bool" where
  "gallery_hide_inv s \<longleftrightarrow>
     load_more s \<noteq> None \<and>
     (allImages s = [] \<or> imagesLoaded s \<noteq> length (allImages s) \<or>
      load_more s = Some DisplayNone)"

definition gallery_show_inv :: "'r list \<Rightarrow> 'r gallery_state \<Rightarrow> bool" where
  "gallery_show_inv xs s \<longleftrightarrow>
     (allImages s = [] \<or> allImages s = xs) \<and>
     imagesLoaded s \<le> length (allImages s) \<and>
     (load_more s \<noteq> Some DisplayNone \<or>
      (imagesLoaded s = length (allImages s) \<and> (allImages s \<noteq> [] \<or> xs = [])))"

section \<open>Navigation controller\<close>

text \<open>
  A navigation link with its \<open>href\<close> attribute (\<open>None\<close> when the link has none) and
  whether its class list holds \<open>active\<close>; a \<open>section[id]\<close> element with the layout
  properties the scroll handler reads; the navbar. Positions are whole pixels.
\<close>

record nav_link =
  href :: "js_string option"
  active :: bool

record section_el =
  section_id :: js_string
  offsetTop :: int
  offsetHeight :: nat

record navbar_el =
  scrolled :: bool
  navbar_offsetHeight :: nat

record nav_state =
  navLinks :: "nav_link list"
  navbar :: "navbar_el option"

text \<open>\<open>updateActiveLink\<close>, lines 73 to 80.\<close>

definition updateActiveLink :: "js_string \<Rightarrow> nav_state \<Rightarrow> nav_state" where
  "updateActiveLink activeId s =
     s\<lparr>navLinks := map (\<lambda>link. link\<lparr>active := (href link = Some activeId)\<rparr>) (navLinks s)\<rparr>"

text \<open>The body of the \<open>forEach\<close> of \<open>handleScroll\<close>, lines 100 to 108.\<close>

definition scroll_section :: "int \<Rightarrow> nat \<Rightarrow> nav_state \<Rightarrow> section_el \<Rightarrow> nav_state" where
  "scroll_section scrollPosition navbarHeight s sec =
     (let sectionTop = offsetTop sec - int navbarHeight - 100;
          sectionBottom = sectionTop + int (offsetHeight sec);
          sectionId = section_id sec
      in if scrollPosition \<ge> sectionTop \<and> scrollPosition < sectionBottom
         then updateActiveLink (0x23 # sectionId) s else s)"

text \<open>
  \<open>handleScroll\<close>, lines 86 to 109, at scroll position \<open>window.scrollY\<close> over the
  sections of the document in document order. Without a navbar element the first access
  to it throws.
\<close>

definition handleScroll ::
  "int \<Rightarrow> section_el list \<Rightarrow> nav_state \<Rightarrow> js_error option \<times> nav_state" where
  "handleScroll scrollPosition sections s =
     (case navbar s of
        None \<Rightarrow> (Some TypeError, s)
      | Some nb \<Rightarrow>
          (let s1 = s\<lparr>navbar := Some (nb\<lparr>scrolled := (scrollPosition > 50)\<rparr>)\<rparr>;
               navbarHeight = navbar_offsetHeight nb
           in (None, foldl (scroll_section scrollPosition navbarHeight) s1 sections)))"

section \<open>Theme controller\<close>

definition THEMES_DARK :: js_string where
  "THEMES_DARK = js ''dark''"

definition THEMES_LIGHT :: js_string where
  "THEMES_LIGHT = js ''light''"

text \<open>The two glyphs of \<open>ICONS\<close>, as code units: U+1F319 and U+2600 U+FE0F.\<close>

definition ICONS_DARK :: js_string where
  "ICONS_DARK = [0xD83C, 0xDF19]"

definition ICONS_LIGHT :: js_string where
  "ICONS_LIGHT = [0x2600, 0xFE0F]"

text \<open>
  The toggle button with its \<open>title\<close> attribute and whether its class list holds
  \<open>animate-rotate-in\<close> (the timer that takes the class off again after a second is not
  modelled). The state of the controller: the \<open>data-theme\<close> attribute of the root
  element, the text of the icon element, the button, the item \<open>portfolio-theme\<close> of
  local storage, and the themes of the \<open>themeChanged\<close> events dispatched so far. An
  attribute, an item or an element that is absent is \<open>None\<close>.
\<close>

record toggle_el =
  title :: "js_string option"
  animate_rotate_in :: bool

record theme_state =
  data_theme :: "js_string option"
  themeIcon :: "js_string option"
  themeToggle :: "toggle_el option"
  portfolio_theme :: "js_string option"
  themeChanged :: "js_string list"

text \<open>
  \<open>getPreferredTheme\<close>, lines 29 to 43; \<open>os_light\<close> is what the media query
  \<open>(prefers-color-scheme: light)\<close> reports, \<open>None\<close> without \<open>window.matchMedia\<close>.
  A stored empty string is falsy.
\<close>

definition getPreferredTheme :: "bool option \<Rightarrow> theme_state \<Rightarrow> js_string" where
  "getPreferredTheme os_light s =
     (case portfolio_theme s of
        Some savedTheme \<Rightarrow>
          if savedTheme \<noteq> [] then savedTheme
          else if os_light = Some True then THEMES_LIGHT else THEMES_DARK
      | None \<Rightarrow> if os_light = Some True then THEMES_LIGHT else THEMES_DARK)"

text \<open>
  \<open>applyTheme\<close>, lines 49 to 75: the error thrown, if any, and the state reached. The
  attribute is written before the icon element is touched, and local storage before the
  button is.
\<close>

definition applyTheme :: "js_string \<Rightarrow> theme_state \<Rightarrow> js_error option \<times> theme_state" where
  "applyTheme theme s =
     (let s1 = s\<lparr>data_theme := (if theme = THEMES_LIGHT then Some THEMES_LIGHT else None)\<rparr>
      in case themeIcon s1 of
           None \<Rightarrow> (Some TypeError, s1)
         | Some _ \<Rightarrow>
             (let s2 = s1\<lparr>themeIcon := Some (if theme = THEMES_LIGHT then ICONS_LIGHT else ICONS_DARK),
                          portfolio_theme := Some theme\<rparr>
              in case themeToggle s2 of
                   None \<Rightarrow> (Some TypeError, s2)
                 | Some button \<Rightarrow>
                     (None,
                      s2\<lparr>themeToggle :=
                            Some (button\<lparr>title :=
                              Some (js ''Switch to '' @
                                    (if theme = THEMES_DARK then js ''light'' else js ''dark'') @
                                    js '' mode'')\<rparr>),
                         themeChanged := themeChanged s2 @ [theme]\<rparr>)))"

text \<open>\<open>toggleTheme\<close>, lines 81 to 95.\<close>

definition toggleTheme :: "theme_state \<Rightarrow> js_error option \<times> theme_state" where
  "toggleTheme s =
     (let currentTheme = data_theme s;
          newTheme = (if currentTheme = Some THEMES_LIGHT then THEMES_DARK else THEMES_LIGHT)
      in case themeToggle s of
           None \<Rightarrow> (Some TypeError, s)
         | Some button \<Rightarrow>
             applyTheme newTheme (s\<lparr>themeToggle := Some (button\<lparr>animate_rotate_in := True\<rparr>)\<rparr>))"

text \<open>
  \<open>handleSystemThemeChange\<close>, lines 101 to 107; \<open>matches\<close> is \<open>e.matches\<close> of the
  change event of the media query.
\<close>

definition handleSystemThemeChange :: "bool \<Rightarrow> theme_state \<Rightarrow> js_error option \<times> theme_state" where
  "handleSystemThemeChange matches s =
     (if (case portfolio_theme s of None \<Rightarrow> True | Some saved \<Rightarrow> saved = [])
      then applyTheme (if matches then THEMES_LIGHT else THEMES_DARK) s
      else (None, s))"

text \<open>
  The first step of \<open>initThemeToggle\<close>, lines 115 and 116: resolve the preferred theme
  and apply it. The listeners are registered after it.
\<close>

definition initThemeToggle :: "bool option \<Rightarrow> theme_state \<Rightarrow> js_error option \<times> theme_state" where
  "initThemeToggle os_light s = applyTheme (getPreferredTheme os_light s) s"

text \<open>
  \<open>window.ThemeToggle.getCurrentTheme\<close>, lines 244 to 246: the attribute, or the
  dark theme when the attribute is absent or empty.
\<close>

definition getCurrentTheme :: "theme_state \<Rightarrow> js_string" where
  "getCurrentTheme s =
     (case data_theme s of
        None \<Rightarrow> THEMES_DARK
      | Some theme \<Rightarrow> if theme = [] then THEMES_DARK else theme)"

section \<open>Example states\<close>

text \<open>
  A page whose markup has the icon and the button, before the theme script has run and
  with nothing in local storage.
\<close>

definition fresh_page :: theme_state where
  "fresh_page =
     \<lparr>data_theme = None, themeIcon = Some [],
      themeToggle = Some \<lparr>title = None, animate_rotate_in = False\<rparr>,
      portfolio_theme = None, themeChanged = []\<rparr>"

text \<open>
  Two sections that cover the pixels 0 to 499 and 500 to 1199, and two links to them,
  the first one active, under a navbar of a given height.
\<close>

definition two_sections :: "section_el list" where
  "two_sections =
     [\<lparr>section_id = js ''home'', offsetTop = 0, offsetHeight = 500\<rparr>,
      \<lparr>section_id = js ''about'', offsetTop = 500, offsetHeight = 700\<rparr>]"

definition two_links :: "nat \<Rightarrow> nav_state" where
  "two_links navbarHeight =
     \<lparr>navLinks = [\<lparr>href = Some (js ''#home''), active = True\<rparr>,
                  \<lparr>href = Some (js ''#about''), active = False\<rparr>],
      navbar = Some \<lparr>scrolled = False, navbar_offsetHeight = navbarHeight\<rparr>\<rparr>"

text \<open>
  Two answers of the server, an array of seven records and an empty array, and the
  loaders' states on a page whose grid holds one node of markup and whose button shows.
\<close>

definition seven :: "nat fetch_outcome" where
  "seven = Response 200 (Parsed (JObject (Some [1, 2, 3, 4, 5, 6, 7])))"

definition nothing :: "nat fetch_outcome" where
  "nothing = Response 200 (Parsed (JObject (Some [])))"

definition projects_start :: "nat projects_state" where
  "projects_start = projects_init (Some [Markup]) (Some Visible)"

definition gallery_start :: "nat gallery_state" where
  "gallery_start = gallery_init (Some [Markup]) (Some Visible)"

section \<open>Properties of the contact form validator\<close>

subsection \<open>Trimming\<close>

lemma dropWhile_all: "(\<forall>c \<in> set s. P c) \<Longrightarrow> dropWhile P s = []"
  by (induction s) auto

lemma dropWhile_none: "(\<forall>c \<in> set s. \<not> P c) \<Longrightarrow> dropWhile P s = s"
  by (cases s) auto

lemma dropWhile_skip: "(\<forall>c \<in> set l. P c) \<Longrightarrow> dropWhile P (l @ s) = dropWhile P s"
  by (induction l) auto

lemma trim_white: "(\<forall>c \<in> set s. is_white c) \<Longrightarrow> trim s = []"
  by (simp add: trim_def dropWhile_all)

lemma trim_black: "(\<forall>c \<in> set s. \<not> is_white c) \<Longrightarrow> trim s = s"
  by (simp add: trim_def dropWhile_none)

lemma trim_surround:
  assumes l: "\<forall>c \<in> set l. is_white c" and r: "\<forall>c \<in> set r. is_white c"
  shows "trim (l @ v @ r) = trim v"
proof -
  have a: "dropWhile is_white (l @ v @ r) = dropWhile is_white (v @ r)"
    using l by (rule dropWhile_skip)
  show ?thesis
  proof (cases "\<forall>c \<in> set v. is_white c")
    case True
    then have "\<forall>c \<in> set (l @ v @ r). is_white c" using l r by auto
    then show ?thesis using True by (simp add: trim_white)
  next
    case False
    then obtain x where "x \<in> set v" "\<not> is_white x" by blast
    then have b: "dropWhile is_white (v @ r) = dropWhile is_white v @ r"
      by (rule dropWhile_append1)
    have "dropWhile is_white (rev (dropWhile is_white v @ r))
        = dropWhile is_white (rev r @ rev (dropWhile is_white v))" by simp
    also have "\<dots> = dropWhile is_white (rev (dropWhile is_white v))"
      using r by (intro dropWhile_skip) simp
    finally show ?thesis by (simp add: trim_def a b)
  qed
qed

lemma trim_idem: "trim (trim s) = trim s"
proof -
  define d where "d = dropWhile is_white s"
  have t: "trim s = rev (dropWhile is_white (rev d))" by (simp add: trim_def d_def)
  have split: "d = trim s @ rev (takeWhile is_white (rev d))"
  proof -
    have "rev (dropWhile is_white (rev d)) @ rev (takeWhile is_white (rev d))
        = rev (takeWhile is_white (rev d) @ dropWhile is_white (rev d))"
      by (simp only: rev_append)
    also have "\<dots> = d" by simp
    finally show ?thesis by (simp only: t)
  qed
  have front: "dropWhile is_white (trim s) = trim s"
  proof (cases "trim s")
    case Nil
    then show ?thesis by simp
  next
    case (Cons c cs)
    from split obtain w where "d = trim s @ w" ..
    with Cons have "d \<noteq> []" and "hd d = c" by simp_all
    then have "\<not> is_white c" unfolding d_def using hd_dropWhile by metis
    then show ?thesis using Cons by simp
  qed
  have rear: "dropWhile is_white (rev (trim s)) = rev (trim s)"
    by (simp add: t)
  show ?thesis
    unfolding trim_def [of "trim s"] by (simp only: front rear rev_rev_ident)
qed

subsection \<open>The validator reads the trimmed value only\<close>

lemma validateField_trim: "validateField (fld\<lparr>val := trim (val fld)\<rparr>) = validateField fld"
  by (simp add: validateField_def trim_idem)

lemma validateField_surround:
  "\<forall>c \<in> set l. is_white c \<Longrightarrow> \<forall>c \<in> set r. is_white c \<Longrightarrow>
   validateField (fld\<lparr>val := l @ val fld @ r\<rparr>) = validateField fld"
  by (simp add: validateField_def trim_surround)

lemma rules_required: "validationRules n = Some rules \<Longrightarrow> required rules"
  by (auto simp add: validationRules_def split: if_splits)

lemma validateField_required:
  "validationRules (name fld) = Some rules \<Longrightarrow> \<forall>c \<in> set (val fld). is_white c \<Longrightarrow>
   validateField fld = \<lparr>isValid = False, msg = capitalize (name fld) @ js '' is required''\<rparr>"
  by (simp add: validateField_def trim_white rules_required)

lemma validateField_minLength:
  "validationRules (name fld) = Some rules \<Longrightarrow> minLength rules = Some n \<Longrightarrow>
   length (trim (val fld)) < n \<Longrightarrow> \<not> isValid (validateField fld)"
  by (auto simp add: validateField_def validationRules_def Let_def split: if_splits)

lemma validateField_maxLength:
  "validationRules (name fld) = Some rules \<Longrightarrow> maxLength rules = Some n \<Longrightarrow>
   length (trim (val fld)) > n \<Longrightarrow> \<not> isValid (validateField fld)"
  by (auto simp add: validateField_def validationRules_def Let_def split: if_splits)

lemma message_rule:
  "validationRules (js ''message'') =
     Some \<lparr>required = True, minLength = Some 10, maxLength = Some 1000, pattern = None,
           message = js ''Message must be between 10 and 1000 characters''\<rparr>"
  by (simp add: validationRules_def js_def)

lemma subject_rule:
  "validationRules (js ''subject'') =
     Some \<lparr>required = True, minLength = Some 5, maxLength = None, pattern = None,
           message = js ''Subject must be at least 5 characters long''\<rparr>"
  by (simp add: validationRules_def js_def)

lemma validateField_message:
  assumes "name fld = js ''message''"
  shows "validateField fld =
     (if 10 \<le> length (trim (val fld)) \<and> length (trim (val fld)) \<le> 1000
      then \<lparr>isValid = True, msg = []\<rparr>
      else if trim (val fld) = []
      then \<lparr>isValid = False, msg = capitalize (js ''message'') @ js '' is required''\<rparr>
      else \<lparr>isValid = False, msg = js ''Message must be between 10 and 1000 characters''\<rparr>)"
  unfolding validateField_def Let_def assms message_rule by auto

lemma validateField_subject:
  assumes "name fld = js ''subject''"
  shows "isValid (validateField fld) \<longleftrightarrow> 5 \<le> length (trim (val fld))"
  unfolding validateField_def Let_def assms subject_rule by auto

lemma length_nonempty: "length s = Suc n \<Longrightarrow> s \<noteq> []"
  by auto

lemma trim_replicate_a: "trim (replicate n 0x61) = replicate n 0x61"
  by (rule trim_black) (simp add: is_white_def)

text \<open>
  C5: the validator rejects the email value \<open>foo@bar\<close> with the message of the email
  rule, since the pattern does not match, and accepts \<open>foo@bar.com\<close>.
\<close>

theorem email_examples:
  "validateField \<lparr>name = js ''email'', val = js ''foo@bar''\<rparr> =
     \<lparr>isValid = False, msg = js ''Please enter a valid email address''\<rparr> \<and>
   \<not> pattern_test email_pattern (js ''foo@bar'') \<and>
   validateField \<lparr>name = js ''email'', val = js ''foo@bar.com''\<rparr> =
     \<lparr>isValid = True, msg = []\<rparr>"
  by (simp add: validateField_def validationRules_def js_def trim_def is_white_def
      email_pattern_def)

text \<open>
  C6: on the field \<open>message\<close> a value whose trimmed length is 9 is rejected, one of
  trimmed length 10 is accepted and one of trimmed length 1001 is rejected, the
  rejections with the message of the rule.
\<close>

theorem message_length_examples:
  "name fld = js ''message'' \<Longrightarrow>
     (length (trim (val fld)) = 9 \<longrightarrow>
        validateField fld =
          \<lparr>isValid = False, msg = js ''Message must be between 10 and 1000 characters''\<rparr>) \<and>
     (length (trim (val fld)) = 10 \<longrightarrow> validateField fld = \<lparr>isValid = True, msg = []\<rparr>) \<and>
     (length (trim (val fld)) = 1001 \<longrightarrow>
        validateField fld =
          \<lparr>isValid = False, msg = js ''Message must be between 10 and 1000 characters''\<rparr>)"
  by (auto simp add: validateField_message)

theorem message_length_examples_witness:
  "length (trim (replicate 9 0x61)) = 9 \<and> length (trim (replicate 10 0x61)) = 10 \<and>
   length (trim (replicate 1001 0x61)) = 1001 \<and>
   \<not> isValid (validateField \<lparr>name = js ''message'', val = replicate 9 0x61\<rparr>) \<and>
   isValid (validateField \<lparr>name = js ''message'', val = replicate 10 0x61\<rparr>) \<and>
   \<not> isValid (validateField \<lparr>name = js ''message'', val = replicate 1001 0x61\<rparr>)"
  using message_length_examples [of "\<lparr>name = js ''message'', val = replicate 9 0x61\<rparr>"]
    message_length_examples [of "\<lparr>name = js ''message'', val = replicate 10 0x61\<rparr>"]
    message_length_examples [of "\<lparr>name = js ''message'', val = replicate 1001 0x61\<rparr>"]
  by (simp add: trim_replicate_a)

text \<open>
  C10: validation reads the trimmed value. Trimming the value first, or wrapping it in
  whitespace, does not change the result; every rule is a required one, and a value of
  whitespace only fails it with the message "<Field> is required"; the length checks
  compare the length of the trimmed value, so that the fields \<open>message\<close> and
  \<open>subject\<close> are valid exactly when the trimmed length is within their bounds.
\<close>

theorem validation_reads_trimmed_value:
  "validateField (fld\<lparr>val := trim (val fld)\<rparr>) = validateField fld \<and>
   ((\<forall>c \<in> set l. is_white c) \<and> (\<forall>c \<in> set r. is_white c) \<longrightarrow>
      validateField (fld\<lparr>val := l @ val fld @ r\<rparr>) = validateField fld) \<and>
   (validationRules (name fld) = Some rules \<longrightarrow> required rules) \<and>
   (validationRules (name fld) = Some rules \<and> (\<forall>c \<in> set (val fld). is_white c) \<longrightarrow>
      validateField fld =
        \<lparr>isValid = False, msg = capitalize (name fld) @ js '' is required''\<rparr>) \<and>
   (validationRules (name fld) = Some rules \<and> minLength rules = Some n \<and>
      length (trim (val fld)) < n \<longrightarrow> \<not> isValid (validateField fld)) \<and>
   (validationRules (name fld) = Some rules \<and> maxLength rules = Some m \<and>
      length (trim (val fld)) > m \<longrightarrow> \<not> isValid (validateField fld)) \<and>
   (name fld = js ''message'' \<longrightarrow>
      (isValid (validateField fld) \<longleftrightarrow>
         10 \<le> length (trim (val fld)) \<and> length (trim (val fld)) \<le> 1000)) \<and>
   (name fld = js ''subject'' \<longrightarrow>
      (isValid (validateField fld) \<longleftrightarrow> 5 \<le> length (trim (val fld))))"
proof -
  have "name fld = js ''message'' \<longrightarrow>
      (isValid (validateField fld) \<longleftrightarrow>
         10 \<le> length (trim (val fld)) \<and> length (trim (val fld)) \<le> 1000)"
    by (auto simp add: validateField_message)
  moreover have "name fld = js ''subject'' \<longrightarrow>
      (isValid (validateField fld) \<longleftrightarrow> 5 \<le> length (trim (val fld)))"
    by (simp add: validateField_subject)
  moreover have "(\<forall>c \<in> set l. is_white c) \<and> (\<forall>c \<in> set r. is_white c) \<longrightarrow>
      validateField (fld\<lparr>val := l @ val fld @ r\<rparr>) = validateField fld"
    using validateField_surround by blast
  moreover have "validationRules (name fld) = Some rules \<and> (\<forall>c \<in> set (val fld). is_white c) \<longrightarrow>
      validateField fld =
        \<lparr>isValid = False, msg = capitalize (name fld) @ js '' is required''\<rparr>"
    using validateField_required by blast
  moreover have "validationRules (name fld) = Some rules \<and> minLength rules = Some n \<and>
      length (trim (val fld)) < n \<longrightarrow> \<not> isValid (validateField fld)"
    using validateField_minLength by blast
  moreover have "validationRules (name fld) = Some rules \<and> maxLength rules = Some m \<and>
      length (trim (val fld)) > m \<longrightarrow> \<not> isValid (validateField fld)"
    using validateField_maxLength by blast
  moreover have "validationRules (name fld) = Some rules \<longrightarrow> required rules"
    using rules_required by blast
  ultimately show ?thesis
    using validateField_trim [of fld] by blast
qed

theorem validation_reads_trimmed_value_witness:
  "validateField \<lparr>name = js ''message'', val = js ''  hello wor ''\<rparr> =
     validateField \<lparr>name = js ''message'', val = js ''hello wor''\<rparr> \<and>
   length (js ''  hello wor '') = 12 \<and>
   \<not> isValid (validateField \<lparr>name = js ''message'', val = js ''  hello wor ''\<rparr>) \<and>
   validateField \<lparr>name = js ''email'', val = js ''   ''\<rparr> =
     \<lparr>isValid = False, msg = js ''Email is required''\<rparr> \<and>
   \<not> isValid (validateField \<lparr>name = js ''message'', val = replicate 1001 0x61\<rparr>) \<and>
   \<not> isValid (validateField \<lparr>name = js ''subject'', val = js '' abcd ''\<rparr>)"
proof -
  let ?rule = "\<lparr>required = True, minLength = Some 10, maxLength = Some 1000, pattern = None,
           message = js ''Message must be between 10 and 1000 characters''\<rparr>"
  have w: "\<forall>c \<in> set (js ''  ''). is_white c" "\<forall>c \<in> set (js '' ''). is_white c"
     "\<forall>c \<in> set (js ''   ''). is_white c"
    by (simp_all add: js_def is_white_def)
  have t9: "trim (js ''hello wor'') = js ''hello wor''" 
    by (simp add: js_def is_white_def trim_def)
  have t4: "trim (js '' abcd '') = js ''abcd''"
    by (simp add: js_def is_white_def trim_def)
  have pad: "js ''  '' @ js ''hello wor'' @ js '' '' = js ''  hello wor ''" by (simp add: js_def)
  have er: "validationRules (js ''email'') \<noteq> None" by (simp add: validationRules_def js_def)
  then obtain erule where er: "validationRules (js ''email'') = Some erule" by blast
  have cap: "capitalize (js ''email'') @ js '' is required'' = js ''Email is required''"
    by (simp add: js_def toUpperCase_def)
  have len9: "length (js ''hello wor'') = 9" "length (js ''abcd'') = 4" "length (js ''  hello wor '') = 12"
    by (simp_all add: js_def)
  have sr: "validationRules (js ''subject'') \<noteq> None" by (simp add: validationRules_def js_def)
  then obtain srule where sr: "validationRules (js ''subject'') = Some srule" by blast
  have f1: "validateField \<lparr>name = js ''message'', val = js ''  hello wor ''\<rparr> =
     validateField \<lparr>name = js ''message'', val = js ''hello wor''\<rparr>"
    using validation_reads_trimmed_value
        [of "\<lparr>name = js ''message'', val = js ''hello wor''\<rparr>" "js ''  ''" "js '' ''" ?rule 10 1000]
    by (simp add: w pad)
  have f2: "\<not> isValid (validateField \<lparr>name = js ''message'', val = js ''hello wor''\<rparr>)"
    using validation_reads_trimmed_value
        [of "\<lparr>name = js ''message'', val = js ''hello wor''\<rparr>" "[]" "[]" ?rule 10 1000]
    by (simp add: message_rule t9 len9)
  have f3: "validateField \<lparr>name = js ''email'', val = js ''   ''\<rparr> =
     \<lparr>isValid = False, msg = js ''Email is required''\<rparr>"
    using validation_reads_trimmed_value
        [of "\<lparr>name = js ''email'', val = js ''   ''\<rparr>" "[]" "[]" erule 0 0]
    by (simp add: w er cap)
  have f4: "\<not> isValid (validateField \<lparr>name = js ''message'', val = replicate 1001 0x61\<rparr>)"
    using validation_reads_trimmed_value
        [of "\<lparr>name = js ''message'', val = replicate 1001 0x61\<rparr>" "[]" "[]" ?rule 10 1000]
    by (simp add: message_rule trim_replicate_a)
  have f5: "\<not> isValid (validateField \<lparr>name = js ''subject'', val = js '' abcd ''\<rparr>)"
    using validation_reads_trimmed_value
        [of "\<lparr>name = js ''subject'', val = js '' abcd ''\<rparr>" "[]" "[]" srule 5 0]
    by (simp add: t4 len9)
  show ?thesis using f1 f2 f3 f4 f5 len9 by simp
qed

section \<open>Properties of the loaders\<close>

subsection \<open>Slices, cards and segments\<close>

lemma page_take_drop:
  assumes "loaded \<le> length xs"
  shows "\<exists>n. page xs loaded count = take n (drop loaded xs)"
proof -
  have "min (int loaded) (int (length xs)) = int loaded" using assms by simp
  then show ?thesis by (auto simp add: page_def js_slice_def Let_def)
qed

lemma page_nonneg:
  assumes "loaded \<le> length xs" "0 \<le> count"
  shows "page xs loaded count = take (min (loaded + nat count) (length xs) - loaded) (drop loaded xs)"
proof -
  have a: "min (int loaded) (int (length xs)) = int loaded" using assms by simp
  have b: "nat (min (int loaded + count) (int (length xs)) - int loaded)
         = min (loaded + nat count) (length xs) - loaded"
    using assms by (auto simp add: min_def nat_diff_distrib nat_add_distrib)
  have c: "\<not> min (int loaded + count) (int (length xs)) < 0" using assms by simp
  show ?thesis by (simp add: page_def js_slice_def Let_def a b c)
qed

lemma page_length: "loaded \<le> length xs \<Longrightarrow> loaded + length (page xs loaded count) \<le> length xs"
  using page_take_drop [of loaded xs count] by auto

lemma page_prefix:
  assumes "loaded \<le> length xs"
  shows "take loaded xs @ page xs loaded count = take (loaded + length (page xs loaded count)) xs"
proof -
  from page_take_drop [OF assms] obtain n where n: "page xs loaded count = take n (drop loaded xs)" ..
  have "take loaded xs @ take n (drop loaded xs) = take (loaded + n) xs"
    by (simp add: take_add)
  moreover have "take (loaded + min (length xs - loaded) n) xs = take (loaded + n) xs"
    using assms by (cases "n \<le> length xs - loaded") (simp_all add: min_def)
  ultimately show ?thesis by (simp add: n)
qed

lemma page_Nil: "page [] loaded count = []"
  by (simp add: page_def js_slice_def Let_def)

lemma cards_map: "cards (Some (map Card xs)) = xs"
  by (induction xs) simp_all

lemma cards_append: "cards (Some (g @ map Card xs)) = cards (Some g) @ xs"
proof (induction g)
  case Nil
  show ?case by (simp add: cards_map)
next
  case (Cons n g)
  then show ?case by (cases n) simp_all
qed

lemma segment_blank:
  "(held = [] \<or> held = ys) \<Longrightarrow> loaded \<le> length held \<Longrightarrow> segment_inv ys held loaded []"
  by (simp add: segment_inv_def)

lemma segment_held:
  assumes "segment_inv ys held loaded shown"
  shows "loaded \<le> length ys" and "segment_inv ys ys loaded shown"
  using assms by (auto simp add: segment_inv_def)

lemma segment_render:
  assumes "segment_inv ys ys loaded shown"
  shows "segment_inv ys ys (loaded + length (page ys loaded c)) (shown @ page ys loaded c)"
proof -
  from assms have le: "loaded \<le> length ys" and sh: "length shown \<le> loaded"
    and eq: "shown = drop (loaded - length shown) (take loaded ys)"
    by (simp_all add: segment_inv_def)
  let ?p = "page ys loaded c"
  have a: "loaded + length ?p - (length shown + length ?p) = loaded - length shown" by simp
  have b: "take (loaded + length ?p) ys = take loaded ys @ ?p"
    using page_prefix [OF le, of c] by simp
  have c: "loaded - length shown \<le> length (take loaded ys)" using le by simp
  have "drop (loaded - length shown) (take loaded ys @ ?p)
      = drop (loaded - length shown) (take loaded ys) @ ?p"
    using c by simp
  then have "shown @ ?p = drop (loaded + length ?p - length (shown @ ?p)) (take (loaded + length ?p) ys)"
    using eq by (simp add: a b)
  then show ?thesis
    using page_length [OF le, of c] sh unfolding segment_inv_def by simp
qed

lemma segment_distinct:
  assumes "segment_inv ys held loaded shown" "distinct ys"
  shows "distinct shown"
proof -
  from assms(1) have "shown = drop (loaded - length shown) (take loaded ys)"
    by (simp add: segment_inv_def)
  moreover have "distinct (drop (loaded - length shown) (take loaded ys))"
    using assms(2) by simp
  ultimately show ?thesis by simp
qed


lemma fetched_array_cases [case_names failed fetched]:
  assumes "fetched_array out = None \<Longrightarrow> P" and "\<And>ys. fetched_array out = Some ys \<Longrightarrow> P"
  shows P
  using assms by (cases "fetched_array out") auto

lemma load_more_static: "load_more_event xs e \<Longrightarrow> static_event xs e"
  by (cases e) simp_all

lemma load_more_calls_static: "load_more_calls xs events \<Longrightarrow> static_calls xs events"
  by (induction events) (simp_all add: load_more_calls_def static_calls_def load_more_static)

lemma list_all_remove:
  "list_all P xs \<Longrightarrow> list_all P (take i xs) \<and> list_all P (drop (Suc i) xs)"
  by (auto simp add: list_all_iff dest: in_set_takeD in_set_dropD)

subsection \<open>The parts of the projects loader, and what its events keep\<close>

lemma render_projects_eq:
  "render_projects xs s =
     s\<lparr>projects_grid := map_option (\<lambda>g. g @ map Card xs) (projects_grid s),
       projectsLoaded := projectsLoaded s + length xs\<rparr>"
proof (induction xs arbitrary: s)
  case Nil
  show ?case by (cases "projects_grid s") simp_all
next
  case (Cons x xs)
  show ?case by (cases "projects_grid s") (simp_all add: Cons.IH)
qed

lemma loadProjects_phases:
  "loadProjects count outcome s =
     (case loadProjects_start count s of
        (s1, None) \<Rightarrow> s1
      | (s1, Some c) \<Rightarrow> loadProjects_resume c outcome s1)"
  by (cases s) (auto simp add: loadProjects_def loadProjects_try_def loadProjects_start_def
      loadProjects_resume_def loadProjects_show_def Let_def
      split: option.splits sum.splits payload.splits)

lemma loadProjects_show_eq:
  "loadProjects_show c s =
     \<lparr>projectsLoaded = projectsLoaded s + length (page (allProjects s) (projectsLoaded s) c),
      allProjects = allProjects s,
      projects_grid =
        map_option (\<lambda>g. g @ map Card (page (allProjects s) (projectsLoaded s) c)) (projects_grid s),
      load_more_projects =
        (if projectsLoaded s + length (page (allProjects s) (projectsLoaded s) c) \<ge> length (allProjects s)
         then map_option (\<lambda>_. DisplayNone) (load_more_projects s) else load_more_projects s),
      projects_fetches = projects_fetches s\<rparr>"
  by (cases s) (simp add: loadProjects_show_def render_projects_eq page_def Let_def)

lemma loadProjects_start_no_grid:
  "projects_grid s = None \<Longrightarrow> loadProjects_start c s = (s, None)"
  by (simp add: loadProjects_start_def)

lemma loadProjects_start_pending:
  "projects_grid s = Some g \<Longrightarrow> allProjects s = [] \<Longrightarrow>
   loadProjects_start c s =
     (s\<lparr>projects_grid := Some [LoadingMessage], projects_fetches := Suc (projects_fetches s)\<rparr>,
      Some c)"
  by (simp add: loadProjects_start_def)

lemma loadProjects_start_cached:
  "projects_grid s = Some g \<Longrightarrow> allProjects s \<noteq> [] \<Longrightarrow>
   loadProjects_start c s = (loadProjects_show c s, None)"
  by (simp add: loadProjects_start_def)

lemma loadProjects_resume_failed:
  "fetched_array out = None \<Longrightarrow>
   loadProjects_resume c out s = s\<lparr>projects_grid := Some [ErrorMessage]\<rparr>"
  by (simp add: loadProjects_resume_def fetched_array_def
      split: sum.splits payload.splits option.splits)

lemma loadProjects_resume_fetched:
  "fetched_array out = Some xs \<Longrightarrow>
   loadProjects_resume c out s =
     loadProjects_show c (s\<lparr>allProjects := rev xs, projects_grid := Some []\<rparr>)"
  by (auto simp add: loadProjects_resume_def fetched_array_def
      split: sum.splits payload.splits option.splits)

lemma projects_start_cases [case_names no_grid pending cached]:
  fixes s :: "'r projects_state"
  assumes "projects_grid s = None \<Longrightarrow> P"
    and "\<And>g. projects_grid s = Some g \<Longrightarrow> allProjects s = [] \<Longrightarrow> P"
    and "\<And>g. projects_grid s = Some g \<Longrightarrow> allProjects s \<noteq> [] \<Longrightarrow> P"
  shows P
  using assms by (cases "projects_grid s"; cases "allProjects s = []") auto

lemma projects_inv_show:
  assumes "projects_inv xs s" "allProjects s = rev xs"
  shows "projects_inv xs (loadProjects_show c s)"
proof -
  from assms have seg: "segment_inv (rev xs) (rev xs) (projectsLoaded s) (cards (projects_grid s))"
    by (simp add: projects_inv_def)
  from segment_held(1) [OF seg] have le: "projectsLoaded s \<le> length (rev xs)" .
  show ?thesis
  proof (cases "projects_grid s")
    case None
    then show ?thesis
      using page_length [OF le, of c]
      by (simp add: projects_inv_def loadProjects_show_eq assms(2) segment_blank)
  next
    case (Some g)
    then show ?thesis
      using segment_render [OF seg, of c]
      by (simp add: projects_inv_def loadProjects_show_eq assms(2) cards_append)
  qed
qed

lemma projects_inv_start:
  assumes "projects_inv xs s"
  shows "projects_inv xs (fst (loadProjects_start c s))"
proof (cases rule: projects_start_cases [where s = s])
  case no_grid
  then show ?thesis using assms by (simp add: loadProjects_start_no_grid)
next
  case (pending g)
  then show ?thesis using assms
    by (auto simp add: loadProjects_start_pending projects_inv_def segment_inv_def)
next
  case (cached g)
  with assms have "allProjects s = rev xs" by (auto simp add: projects_inv_def segment_inv_def)
  then show ?thesis using assms cached by (simp add: loadProjects_start_cached projects_inv_show)
qed

lemma projects_inv_resume:
  assumes "projects_inv xs s" "fetched_array out = None \<or> fetched_array out = Some xs"
  shows "projects_inv xs (loadProjects_resume c out s)"
proof (cases rule: fetched_array_cases [where out = out])
  case failed
  from assms(1) have "segment_inv (rev xs) (allProjects s) (projectsLoaded s) []"
    by (auto simp add: projects_inv_def segment_inv_def intro: segment_blank)
  then show ?thesis using failed by (simp add: loadProjects_resume_failed projects_inv_def)
next
  case (fetched ys)
  with assms(2) have ys: "ys = xs" by simp
  from assms(1) have "projectsLoaded s \<le> length (rev xs)"
    unfolding projects_inv_def by (rule segment_held(1))
  then have "projects_inv xs (s\<lparr>allProjects := rev xs, projects_grid := Some []\<rparr>)"
    by (simp add: projects_inv_def segment_blank)
  then show ?thesis using fetched ys
    by (simp add: loadProjects_resume_fetched projects_inv_show)
qed

lemma projects_invoke_fst: "fst (projects_invoke c sp) = fst (loadProjects_start c (fst sp))"
  by (simp add: projects_invoke_def split: prod.splits option.splits)

lemma projects_inv_event:
  assumes "projects_inv xs (fst sp)" "static_event xs e"
  shows "projects_inv xs (fst (projects_event e sp))"
proof (cases e)
  case (Invoke call)
  have "projects_inv xs (fst (projects_invoke c sp))" for c
    using projects_inv_start [OF assms(1), of c] by (simp add: projects_invoke_fst)
  then show ?thesis using Invoke assms(2) by (cases call) simp_all
next
  case (Settle i out)
  then show ?thesis using assms
    by (cases sp) (simp add: projects_inv_resume)
qed

lemma projects_inv_run:
  "projects_inv xs (fst sp) \<Longrightarrow> static_calls xs events \<Longrightarrow>
   projects_inv xs (fst (projects_run sp events))"
  by (induction sp events rule: projects_run.induct)
     (simp_all add: static_calls_def projects_inv_event)

lemma projects_inv_init: "cards g = [] \<Longrightarrow> projects_inv xs (projects_init g b)"
  by (simp add: projects_inv_def projects_init_def segment_blank)

lemma projects_pending_event:
  assumes "list_all (\<lambda>c. c = projectsPerLoad) (snd sp)" "load_more_event xs e"
  shows "list_all (\<lambda>c. c = projectsPerLoad) (snd (projects_event e sp))"
proof (cases e)
  case (Invoke call)
  with assms(2) have "call = LoadMore" by simp
  then show ?thesis using Invoke assms(1)
    by (simp add: projects_invoke_def loadProjects_start_def split: option.splits)
next
  case (Settle i out)
  then show ?thesis using assms(1) by (cases sp) (simp add: list_all_remove)
qed

lemma projects_pending_run:
  "list_all (\<lambda>c. c = projectsPerLoad) (snd sp) \<Longrightarrow> load_more_calls xs events \<Longrightarrow>
   list_all (\<lambda>c. c = projectsPerLoad) (snd (projects_run sp events))"
proof (induction sp events rule: projects_run.induct)
  case (1 sp)
  then show ?case by simp
next
  case (2 sp e rest)
  from "2.prems"(2) have e: "load_more_event xs e" and rest: "load_more_calls xs rest"
    by (simp_all add: load_more_calls_def)
  from "2.IH" [OF projects_pending_event [OF "2.prems"(1) e] rest] show ?case by simp
qed

lemma projects_loaded_mono:
  assumes "static_event xs e"
  shows "projectsLoaded (fst sp) \<le> projectsLoaded (fst (projects_event e sp))"
proof (cases e)
  case (Invoke call)
  have "projectsLoaded (fst sp) \<le> projectsLoaded (fst (projects_invoke c sp))" for c
    by (simp add: projects_invoke_fst loadProjects_start_def loadProjects_show_eq
        split: option.splits)
  then show ?thesis using Invoke assms by (cases call) simp_all
next
  case (Settle i out)
  show ?thesis
  proof (cases rule: fetched_array_cases [where out = out])
    case failed
    then show ?thesis using Settle by (cases sp) (simp add: loadProjects_resume_failed)
  next
    case (fetched ys)
    then show ?thesis using Settle
      by (cases sp) (simp add: loadProjects_resume_fetched loadProjects_show_eq)
  qed
qed

lemma projects_hide_show:
  "load_more_projects s \<noteq> None \<Longrightarrow> projects_hide_inv (loadProjects_show c s)"
  by (auto simp add: projects_hide_inv_def loadProjects_show_eq)

lemma projects_hide_start:
  assumes "projects_hide_inv s"
  shows "projects_hide_inv (fst (loadProjects_start c s))"
proof (cases rule: projects_start_cases [where s = s])
  case no_grid
  then show ?thesis using assms by (simp add: loadProjects_start_no_grid)
next
  case (pending g)
  then show ?thesis using assms by (simp add: loadProjects_start_pending projects_hide_inv_def)
next
  case (cached g)
  from assms have "load_more_projects s \<noteq> None" by (simp add: projects_hide_inv_def)
  then show ?thesis using cached by (simp add: loadProjects_start_cached projects_hide_show)
qed

lemma projects_hide_resume:
  assumes "projects_hide_inv s"
  shows "projects_hide_inv (loadProjects_resume c out s)"
proof (cases rule: fetched_array_cases [where out = out])
  case failed
  then show ?thesis using assms by (simp add: loadProjects_resume_failed projects_hide_inv_def)
next
  case (fetched ys)
  from assms have "load_more_projects s \<noteq> None" by (simp add: projects_hide_inv_def)
  then show ?thesis using fetched by (simp add: loadProjects_resume_fetched projects_hide_show)
qed

lemma projects_hide_invoke:
  "projects_hide_inv (fst sp) \<Longrightarrow> projects_hide_inv (fst (projects_invoke c sp))"
  by (simp add: projects_invoke_fst projects_hide_start)

lemma projects_hide_event:
  assumes "projects_hide_inv (fst sp)"
  shows "projects_hide_inv (fst (projects_event e sp))"
proof (cases e)
  case (Invoke call)
  show ?thesis
  proof (cases call)
    case (Load c)
    then show ?thesis using Invoke assms by (simp add: projects_hide_invoke)
  next
    case LoadMore
    then show ?thesis using Invoke assms by (simp add: projects_hide_invoke)
  next
    case Reload
    have "projects_hide_inv ((fst sp)\<lparr>projectsLoaded := 0, allProjects := []\<rparr>)"
      "projects_hide_inv ((fst sp)\<lparr>projectsLoaded := 0, allProjects := [], projects_grid := Some []\<rparr>)"
      using assms by (simp_all add: projects_hide_inv_def)
    then show ?thesis using Invoke Reload
      using projects_hide_invoke
        [of "((fst sp)\<lparr>projectsLoaded := 0, allProjects := [], projects_grid := Some []\<rparr>, snd sp)"
            projectsPerLoad]
      by (simp add: Projects_reload_def Let_def split: option.splits)
  qed
next
  case (Settle i out)
  then show ?thesis using assms by (cases sp) (simp add: projects_hide_resume)
qed

lemma projects_hide_run:
  "projects_hide_inv (fst sp) \<Longrightarrow> projects_hide_inv (fst (projects_run sp events))"
  by (induction sp events rule: projects_run.induct) (simp_all add: projects_hide_event)

lemma projects_hide_init: "b \<noteq> None \<Longrightarrow> projects_hide_inv (projects_init g b)"
  by (simp add: projects_hide_inv_def projects_init_def)

lemma projects_show_show:
  assumes "projects_show_inv xs s" "allProjects s = rev xs"
  shows "projects_show_inv xs (loadProjects_show c s)"
proof -
  from assms have le: "projectsLoaded s \<le> length (allProjects s)"
    by (simp add: projects_show_inv_def)
  show ?thesis
    using assms page_length [OF le, of c]
    by (auto simp add: projects_show_inv_def loadProjects_show_eq)
qed

lemma projects_show_start:
  assumes "projects_show_inv xs s"
  shows "projects_show_inv xs (fst (loadProjects_start c s))"
proof (cases rule: projects_start_cases [where s = s])
  case no_grid
  then show ?thesis using assms by (simp add: loadProjects_start_no_grid)
next
  case (pending g)
  then show ?thesis using assms by (simp add: loadProjects_start_pending projects_show_inv_def)
next
  case (cached g)
  with assms have "allProjects s = rev xs" by (auto simp add: projects_show_inv_def)
  then show ?thesis using assms cached
    by (simp add: loadProjects_start_cached projects_show_show)
qed

lemma projects_show_resume:
  assumes "projects_show_inv xs s" "fetched_array out = None \<or> fetched_array out = Some xs"
  shows "projects_show_inv xs (loadProjects_resume c out s)"
proof (cases rule: fetched_array_cases [where out = out])
  case failed
  then show ?thesis using assms by (simp add: loadProjects_resume_failed projects_show_inv_def)
next
  case (fetched ys)
  with assms(2) have ys: "ys = xs" by simp
  have "projects_show_inv xs (s\<lparr>allProjects := rev xs, projects_grid := Some []\<rparr>)"
    using assms(1) by (auto simp add: projects_show_inv_def)
  then show ?thesis using fetched ys
    by (simp add: loadProjects_resume_fetched projects_show_show)
qed

lemma projects_show_event:
  assumes "projects_show_inv xs (fst sp)" "static_event xs e"
  shows "projects_show_inv xs (fst (projects_event e sp))"
proof (cases e)
  case (Invoke call)
  have "projects_show_inv xs (fst (projects_invoke c sp))" for c
    using projects_show_start [OF assms(1), of c] by (simp add: projects_invoke_fst)
  then show ?thesis using Invoke assms(2) by (cases call) simp_all
next
  case (Settle i out)
  then show ?thesis using assms by (cases sp) (simp add: projects_show_resume)
qed

lemma projects_show_run:
  "projects_show_inv xs (fst sp) \<Longrightarrow> static_calls xs events \<Longrightarrow>
   projects_show_inv xs (fst (projects_run sp events))"
  by (induction sp events rule: projects_run.induct)
     (simp_all add: static_calls_def projects_show_event)

lemma projects_show_init: "b \<noteq> Some DisplayNone \<Longrightarrow> projects_show_inv xs (projects_init g b)"
  by (simp add: projects_show_inv_def projects_init_def)

lemma projects_cached_event:
  assumes "allProjects (fst sp) = rev xs" "static_event xs e" "xs \<noteq> []"
  shows "projects_fetches (fst (projects_event e sp)) = projects_fetches (fst sp) \<and>
         allProjects (fst (projects_event e sp)) = rev xs"
proof (cases e)
  case (Invoke call)
  have "projects_fetches (fst (projects_invoke c sp)) = projects_fetches (fst sp) \<and>
        allProjects (fst (projects_invoke c sp)) = rev xs" for c
    using assms(1,3)
    by (simp add: projects_invoke_fst loadProjects_start_def loadProjects_show_eq
        split: option.splits)
  then show ?thesis using Invoke assms(2) by (cases call) simp_all
next
  case (Settle i out)
  show ?thesis
  proof (cases rule: fetched_array_cases [where out = out])
    case failed
    then show ?thesis using Settle assms(1) by (cases sp) (simp add: loadProjects_resume_failed)
  next
    case (fetched ys)
    with assms(2) Settle have "ys = xs" by simp
    then show ?thesis using Settle assms(1,3) fetched
      by (cases sp) (simp add: loadProjects_resume_fetched loadProjects_show_eq)
  qed
qed

lemma projects_cached_run:
  "allProjects (fst sp) = rev xs \<Longrightarrow> static_calls xs events \<Longrightarrow> xs \<noteq> [] \<Longrightarrow>
   projects_fetches (fst (projects_run sp events)) = projects_fetches (fst sp) \<and>
   allProjects (fst (projects_run sp events)) = rev xs"
proof (induction sp events rule: projects_run.induct)
  case (1 sp)
  then show ?case by simp
next
  case (2 sp e rest)
  from "2.prems" have e: "static_event xs e" and rest: "static_calls xs rest"
    by (simp_all add: static_calls_def)
  from projects_cached_event [OF "2.prems"(1) e "2.prems"(3)] "2.IH" rest "2.prems"(3)
  show ?case by simp
qed

lemma projects_empty_event:
  assumes "projects_grid (fst sp) \<noteq> None" "allProjects (fst sp) = []" "empty_answer e"
  shows "projects_grid (fst (projects_event e sp)) \<noteq> None \<and>
         allProjects (fst (projects_event e sp)) = [] \<and>
         projects_fetches (fst (projects_event e sp)) =
           projects_fetches (fst sp) + (if is_invoke e then 1 else 0)"
proof (cases e)
  case (Invoke call)
  have inv: "projects_grid (fst (projects_invoke c tp)) \<noteq> None \<and>
        allProjects (fst (projects_invoke c tp)) = [] \<and>
        projects_fetches (fst (projects_invoke c tp)) = Suc (projects_fetches (fst tp))"
    if "projects_grid (fst tp) \<noteq> None" "allProjects (fst tp) = []"
    for c and tp :: "'a projects_state \<times> int list"
    using that by (auto simp add: projects_invoke_fst loadProjects_start_def)
  show ?thesis
  proof (cases call)
    case (Load c)
    then show ?thesis using Invoke inv [OF assms(1,2), of c] by simp
  next
    case LoadMore
    then show ?thesis using Invoke inv [OF assms(1,2), of projectsPerLoad] by simp
  next
    case Reload
    from assms(1) obtain g where g: "projects_grid (fst sp) = Some g" by auto
    let ?tp = "((fst sp)\<lparr>projectsLoaded := 0, allProjects := [], projects_grid := Some []\<rparr>, snd sp)"
    have "projects_grid (fst ?tp) \<noteq> None" "allProjects (fst ?tp) = []" by simp_all
    from inv [OF this, of projectsPerLoad] show ?thesis
      using Invoke Reload g by (simp add: Projects_reload_def Let_def)
  qed
next
  case (Settle i out)
  with assms(3) have out: "fetched_array out = Some []" by simp
  show ?thesis using Settle assms(1,2)
    by (cases sp) (simp add: loadProjects_resume_fetched [OF out] loadProjects_show_eq page_Nil)
qed

lemma projects_empty_run:
  "projects_grid (fst sp) \<noteq> None \<Longrightarrow> allProjects (fst sp) = [] \<Longrightarrow> empty_answers events \<Longrightarrow>
   projects_fetches (fst (projects_run sp events)) =
     projects_fetches (fst sp) + length (filter is_invoke events)"
proof (induction sp events rule: projects_run.induct)
  case (1 sp)
  then show ?case by simp
next
  case (2 sp e rest)
  from "2.prems" have e: "empty_answer e" and rest: "empty_answers rest"
    by (simp_all add: empty_answers_def)
  from projects_empty_event [OF "2.prems"(1,2) e] "2.IH" rest
  show ?case by simp
qed



subsection \<open>The parts of the gallery loader, and what its events keep\<close>

lemma render_images_eq:
  "render_images xs s =
     s\<lparr>gallery_grid := map_option (\<lambda>g. g @ map Card xs) (gallery_grid s),
       imagesLoaded := imagesLoaded s + length xs\<rparr>"
proof (induction xs arbitrary: s)
  case Nil
  show ?case by (cases "gallery_grid s") simp_all
next
  case (Cons x xs)
  show ?case by (cases "gallery_grid s") (simp_all add: Cons.IH)
qed

lemma loadImages_phases:
  "loadImages count outcome s =
     (case loadImages_start count s of
        (s1, None) \<Rightarrow> s1
      | (s1, Some c) \<Rightarrow> loadImages_resume c outcome s1)"
  by (cases s) (auto simp add: loadImages_def loadImages_try_def loadImages_start_def
      loadImages_resume_def loadImages_show_def Let_def
      split: option.splits sum.splits payload.splits)

lemma loadImages_show_eq:
  "loadImages_show c s =
     \<lparr>imagesLoaded = imagesLoaded s + length (page (allImages s) (imagesLoaded s) c),
      allImages = allImages s,
      gallery_grid =
        map_option (\<lambda>g. g @ map Card (page (allImages s) (imagesLoaded s) c)) (gallery_grid s),
      load_more =
        (if imagesLoaded s + length (page (allImages s) (imagesLoaded s) c) \<ge> length (allImages s)
         then map_option (\<lambda>_. DisplayNone) (load_more s) else load_more s),
      gallery_fetches = gallery_fetches s\<rparr>"
  by (cases s) (simp add: loadImages_show_def render_images_eq page_def Let_def)

lemma loadImages_start_no_grid:
  "gallery_grid s = None \<Longrightarrow> loadImages_start c s = (s, None)"
  by (simp add: loadImages_start_def)

lemma loadImages_start_pending:
  "gallery_grid s = Some g \<Longrightarrow> allImages s = [] \<Longrightarrow>
   loadImages_start c s =
     (s\<lparr>gallery_fetches := Suc (gallery_fetches s)\<rparr>, Some c)"
  by (simp add: loadImages_start_def)

lemma loadImages_start_cached:
  "gallery_grid s = Some g \<Longrightarrow> allImages s \<noteq> [] \<Longrightarrow>
   loadImages_start c s = (loadImages_show c s, None)"
  by (simp add: loadImages_start_def)

lemma loadImages_resume_failed:
  "fetched_array out = None \<Longrightarrow>
   loadImages_resume c out s = s\<lparr>gallery_grid := Some [ErrorMessage]\<rparr>"
  by (simp add: loadImages_resume_def fetched_array_def
      split: sum.splits payload.splits option.splits)

lemma loadImages_resume_fetched:
  "fetched_array out = Some xs \<Longrightarrow>
   loadImages_resume c out s =
     loadImages_show c (s\<lparr>allImages := xs\<rparr>)"
  by (auto simp add: loadImages_resume_def fetched_array_def
      split: sum.splits payload.splits option.splits)

lemma gallery_start_cases [case_names no_grid pending cached]:
  fixes s :: "'r gallery_state"
  assumes "gallery_grid s = None \<Longrightarrow> P"
    and "\<And>g. gallery_grid s = Some g \<Longrightarrow> allImages s = [] \<Longrightarrow> P"
    and "\<And>g. gallery_grid s = Some g \<Longrightarrow> allImages s \<noteq> [] \<Longrightarrow> P"
  shows P
  using assms by (cases "gallery_grid s"; cases "allImages s = []") auto

lemma gallery_inv_show:
  assumes "gallery_inv xs s" "allImages s = xs"
  shows "gallery_inv xs (loadImages_show c s)"
proof -
  from assms have seg: "segment_inv xs xs (imagesLoaded s) (cards (gallery_grid s))"
    by (simp add: gallery_inv_def)
  from segment_held(1) [OF seg] have le: "imagesLoaded s \<le> length xs" .
  show ?thesis
  proof (cases "gallery_grid s")
    case None
    then show ?thesis
      using page_length [OF le, of c]
      by (simp add: gallery_inv_def loadImages_show_eq assms(2) segment_blank)
  next
    case (Some g)
    then show ?thesis
      using segment_render [OF seg, of c]
      by (simp add: gallery_inv_def loadImages_show_eq assms(2) cards_append)
  qed
qed

lemma gallery_inv_start:
  assumes "gallery_inv xs s"
  shows "gallery_inv xs (fst (loadImages_start c s))"
proof (cases rule: gallery_start_cases [where s = s])
  case no_grid
  then show ?thesis using assms by (simp add: loadImages_start_no_grid)
next
  case (pending g)
  then show ?thesis using assms
    by (auto simp add: loadImages_start_pending gallery_inv_def segment_inv_def)
next
  case (cached g)
  with assms have "allImages s = xs" by (auto simp add: gallery_inv_def segment_inv_def)
  then show ?thesis using assms cached by (simp add: loadImages_start_cached gallery_inv_show)
qed

lemma gallery_inv_resume:
  assumes "gallery_inv xs s" "fetched_array out = None \<or> fetched_array out = Some xs"
  shows "gallery_inv xs (loadImages_resume c out s)"
proof (cases rule: fetched_array_cases [where out = out])
  case failed
  from assms(1) have "segment_inv xs (allImages s) (imagesLoaded s) []"
    by (auto simp add: gallery_inv_def segment_inv_def intro: segment_blank)
  then show ?thesis using failed by (simp add: loadImages_resume_failed gallery_inv_def)
next
  case (fetched ys)
  with assms(2) have ys: "ys = xs" by simp
  from assms(1) have "gallery_inv xs (s\<lparr>allImages := xs\<rparr>)"
    by (simp add: gallery_inv_def segment_held(2))
  then show ?thesis using fetched ys
    by (simp add: loadImages_resume_fetched gallery_inv_show)
qed

lemma gallery_invoke_fst: "fst (gallery_invoke c sp) = fst (loadImages_start c (fst sp))"
  by (simp add: gallery_invoke_def split: prod.splits option.splits)

lemma gallery_inv_event:
  assumes "gallery_inv xs (fst sp)" "static_event xs e"
  shows "gallery_inv xs (fst (gallery_event e sp))"
proof (cases e)
  case (Invoke call)
  have "gallery_inv xs (fst (gallery_invoke c sp))" for c
    using gallery_inv_start [OF assms(1), of c] by (simp add: gallery_invoke_fst)
  then show ?thesis using Invoke assms(2) by (cases call) simp_all
next
  case (Settle i out)
  then show ?thesis using assms
    by (cases sp) (simp add: gallery_inv_resume)
qed

lemma gallery_inv_run:
  "gallery_inv xs (fst sp) \<Longrightarrow> static_calls xs events \<Longrightarrow>
   gallery_inv xs (fst (gallery_run sp events))"
  by (induction sp events rule: gallery_run.induct)
     (simp_all add: static_calls_def gallery_inv_event)

lemma gallery_inv_init: "cards g = [] \<Longrightarrow> gallery_inv xs (gallery_init g b)"
  by (simp add: gallery_inv_def gallery_init_def segment_blank)

lemma gallery_pending_event:
  assumes "list_all (\<lambda>c. c = imagesPerLoad) (snd sp)" "load_more_event xs e"
  shows "list_all (\<lambda>c. c = imagesPerLoad) (snd (gallery_event e sp))"
proof (cases e)
  case (Invoke call)
  with assms(2) have "call = LoadMore" by simp
  then show ?thesis using Invoke assms(1)
    by (simp add: gallery_invoke_def loadImages_start_def split: option.splits)
next
  case (Settle i out)
  then show ?thesis using assms(1) by (cases sp) (simp add: list_all_remove)
qed

lemma gallery_pending_run:
  "list_all (\<lambda>c. c = imagesPerLoad) (snd sp) \<Longrightarrow> load_more_calls xs events \<Longrightarrow>
   list_all (\<lambda>c. c = imagesPerLoad) (snd (gallery_run sp events))"
proof (induction sp events rule: gallery_run.induct)
  case (1 sp)
  then show ?case by simp
next
  case (2 sp e rest)
  from "2.prems"(2) have e: "load_more_event xs e" and rest: "load_more_calls xs rest"
    by (simp_all add: load_more_calls_def)
  from "2.IH" [OF gallery_pending_event [OF "2.prems"(1) e] rest] show ?case by simp
qed

lemma gallery_loaded_mono:
  assumes "static_event xs e"
  shows "imagesLoaded (fst sp) \<le> imagesLoaded (fst (gallery_event e sp))"
proof (cases e)
  case (Invoke call)
  have "imagesLoaded (fst sp) \<le> imagesLoaded (fst (gallery_invoke c sp))" for c
    by (simp add: gallery_invoke_fst loadImages_start_def loadImages_show_eq
        split: option.splits)
  then show ?thesis using Invoke assms by (cases call) simp_all
next
  case (Settle i out)
  show ?thesis
  proof (cases rule: fetched_array_cases [where out = out])
    case failed
    then show ?thesis using Settle by (cases sp) (simp add: loadImages_resume_failed)
  next
    case (fetched ys)
    then show ?thesis using Settle
      by (cases sp) (simp add: loadImages_resume_fetched loadImages_show_eq)
  qed
qed

lemma gallery_hide_show:
  "load_more s \<noteq> None \<Longrightarrow> gallery_hide_inv (loadImages_show c s)"
  by (auto simp add: gallery_hide_inv_def loadImages_show_eq)

lemma gallery_hide_start:
  assumes "gallery_hide_inv s"
  shows "gallery_hide_inv (fst (loadImages_start c s))"
proof (cases rule: gallery_start_cases [where s = s])
  case no_grid
  then show ?thesis using assms by (simp add: loadImages_start_no_grid)
next
  case (pending g)
  then show ?thesis using assms by (simp add: loadImages_start_pending gallery_hide_inv_def)
next
  case (cached g)
  from assms have "load_more s \<noteq> None" by (simp add: gallery_hide_inv_def)
  then show ?thesis using cached by (simp add: loadImages_start_cached gallery_hide_show)
qed

lemma gallery_hide_resume:
  assumes "gallery_hide_inv s"
  shows "gallery_hide_inv (loadImages_resume c out s)"
proof (cases rule: fetched_array_cases [where out = out])
  case failed
  then show ?thesis using assms by (simp add: loadImages_resume_failed gallery_hide_inv_def)
next
  case (fetched ys)
  from assms have "load_more s \<noteq> None" by (simp add: gallery_hide_inv_def)
  then show ?thesis using fetched by (simp add: loadImages_resume_fetched gallery_hide_show)
qed

lemma gallery_hide_invoke:
  "gallery_hide_inv (fst sp) \<Longrightarrow> gallery_hide_inv (fst (gallery_invoke c sp))"
  by (simp add: gallery_invoke_fst gallery_hide_start)

lemma gallery_hide_event:
  assumes "gallery_hide_inv (fst sp)"
  shows "gallery_hide_inv (fst (gallery_event e sp))"
proof (cases e)
  case (Invoke call)
  show ?thesis
  proof (cases call)
    case (Load c)
    then show ?thesis using Invoke assms by (simp add: gallery_hide_invoke)
  next
    case LoadMore
    then show ?thesis using Invoke assms by (simp add: gallery_hide_invoke)
  next
    case Reload
    have "gallery_hide_inv ((fst sp)\<lparr>imagesLoaded := 0, allImages := []\<rparr>)"
      "gallery_hide_inv ((fst sp)\<lparr>imagesLoaded := 0, allImages := [], gallery_grid := Some []\<rparr>)"
      using assms by (simp_all add: gallery_hide_inv_def)
    then show ?thesis using Invoke Reload
      using gallery_hide_invoke
        [of "((fst sp)\<lparr>imagesLoaded := 0, allImages := [], gallery_grid := Some []\<rparr>, snd sp)"
            imagesPerLoad]
      by (simp add: Gallery_reload_def Let_def split: option.splits)
  qed
next
  case (Settle i out)
  then show ?thesis using assms by (cases sp) (simp add: gallery_hide_resume)
qed

lemma gallery_hide_run:
  "gallery_hide_inv (fst sp) \<Longrightarrow> gallery_hide_inv (fst (gallery_run sp events))"
  by (induction sp events rule: gallery_run.induct) (simp_all add: gallery_hide_event)

lemma gallery_hide_init: "b \<noteq> None \<Longrightarrow> gallery_hide_inv (gallery_init g b)"
  by (simp add: gallery_hide_inv_def gallery_init_def)

lemma gallery_show_show:
  assumes "gallery_show_inv xs s" "allImages s = xs"
  shows "gallery_show_inv xs (loadImages_show c s)"
proof -
  from assms have le: "imagesLoaded s \<le> length (allImages s)"
    by (simp add: gallery_show_inv_def)
  show ?thesis
    using assms page_length [OF le, of c]
    by (auto simp add: gallery_show_inv_def loadImages_show_eq)
qed

lemma gallery_show_start:
  assumes "gallery_show_inv xs s"
  shows "gallery_show_inv xs (fst (loadImages_start c s))"
proof (cases rule: gallery_start_cases [where s = s])
  case no_grid
  then show ?thesis using assms by (simp add: loadImages_start_no_grid)
next
  case (pending g)
  then show ?thesis using assms by (simp add: loadImages_start_pending gallery_show_inv_def)
next
  case (cached g)
  with assms have "allImages s = xs" by (auto simp add: gallery_show_inv_def)
  then show ?thesis using assms cached
    by (simp add: loadImages_start_cached gallery_show_show)
qed

lemma gallery_show_resume:
  assumes "gallery_show_inv xs s" "fetched_array out = None \<or> fetched_array out = Some xs"
  shows "gallery_show_inv xs (loadImages_resume c out s)"
proof (cases rule: fetched_array_cases [where out = out])
  case failed
  then show ?thesis using assms by (simp add: loadImages_resume_failed gallery_show_inv_def)
next
  case (fetched ys)
  with assms(2) have ys: "ys = xs" by simp
  have "gallery_show_inv xs (s\<lparr>allImages := xs\<rparr>)"
    using assms(1) by (auto simp add: gallery_show_inv_def)
  then show ?thesis using fetched ys
    by (simp add: loadImages_resume_fetched gallery_show_show)
qed

lemma gallery_show_event:
  assumes "gallery_show_inv xs (fst sp)" "static_event xs e"
  shows "gallery_show_inv xs (fst (gallery_event e sp))"
proof (cases e)
  case (Invoke call)
  have "gallery_show_inv xs (fst (gallery_invoke c sp))" for c
    using gallery_show_start [OF assms(1), of c] by (simp add: gallery_invoke_fst)
  then show ?thesis using Invoke assms(2) by (cases call) simp_all
next
  case (Settle i out)
  then show ?thesis using assms by (cases sp) (simp add: gallery_show_resume)
qed

lemma gallery_show_run:
  "gallery_show_inv xs (fst sp) \<Longrightarrow> static_calls xs events \<Longrightarrow>
   gallery_show_inv xs (fst (gallery_run sp events))"
  by (induction sp events rule: gallery_run.induct)
     (simp_all add: static_calls_def gallery_show_event)

lemma gallery_show_init: "b \<noteq> Some DisplayNone \<Longrightarrow> gallery_show_inv xs (gallery_init g b)"
  by (simp add: gallery_show_inv_def gallery_init_def)

lemma gallery_cached_event:
  assumes "allImages (fst sp) = xs" "static_event xs e" "xs \<noteq> []"
  shows "gallery_fetches (fst (gallery_event e sp)) = gallery_fetches (fst sp) \<and>
         allImages (fst (gallery_event e sp)) = xs"
proof (cases e)
  case (Invoke call)
  have "gallery_fetches (fst (gallery_invoke c sp)) = gallery_fetches (fst sp) \<and>
        allImages (fst (gallery_invoke c sp)) = xs" for c
    using assms(1,3)
    by (simp add: gallery_invoke_fst loadImages_start_def loadImages_show_eq
        split: option.splits)
  then show ?thesis using Invoke assms(2) by (cases call) simp_all
next
  case (Settle i out)
  show ?thesis
  proof (cases rule: fetched_array_cases [where out = out])
    case failed
    then show ?thesis using Settle assms(1) by (cases sp) (simp add: loadImages_resume_failed)
  next
    case (fetched ys)
    with assms(2) Settle have "ys = xs" by simp
    then show ?thesis using Settle assms(1,3) fetched
      by (cases sp) (simp add: loadImages_resume_fetched loadImages_show_eq)
  qed
qed

lemma gallery_cached_run:
  "allImages (fst sp) = xs \<Longrightarrow> static_calls xs events \<Longrightarrow> xs \<noteq> [] \<Longrightarrow>
   gallery_fetches (fst (gallery_run sp events)) = gallery_fetches (fst sp) \<and>
   allImages (fst (gallery_run sp events)) = xs"
proof (induction sp events rule: gallery_run.induct)
  case (1 sp)
  then show ?case by simp
next
  case (2 sp e rest)
  from "2.prems" have e: "static_event xs e" and rest: "static_calls xs rest"
    by (simp_all add: static_calls_def)
  from gallery_cached_event [OF "2.prems"(1) e "2.prems"(3)] "2.IH" rest "2.prems"(3)
  show ?case by simp
qed

lemma gallery_empty_event:
  assumes "gallery_grid (fst sp) \<noteq> None" "allImages (fst sp) = []" "empty_answer e"
  shows "gallery_grid (fst (gallery_event e sp)) \<noteq> None \<and>
         allImages (fst (gallery_event e sp)) = [] \<and>
         gallery_fetches (fst (gallery_event e sp)) =
           gallery_fetches (fst sp) + (if is_invoke e then 1 else 0)"
proof (cases e)
  case (Invoke call)
  have inv: "gallery_grid (fst (gallery_invoke c tp)) \<noteq> None \<and>
        allImages (fst (gallery_invoke c tp)) = [] \<and>
        gallery_fetches (fst (gallery_invoke c tp)) = Suc (gallery_fetches (fst tp))"
    if "gallery_grid (fst tp) \<noteq> None" "allImages (fst tp) = []"
    for c and tp :: "'a gallery_state \<times> int list"
    using that by (auto simp add: gallery_invoke_fst loadImages_start_def)
  show ?thesis
  proof (cases call)
    case (Load c)
    then show ?thesis using Invoke inv [OF assms(1,2), of c] by simp
  next
    case LoadMore
    then show ?thesis using Invoke inv [OF assms(1,2), of imagesPerLoad] by simp
  next
    case Reload
    from assms(1) obtain g where g: "gallery_grid (fst sp) = Some g" by auto
    let ?tp = "((fst sp)\<lparr>imagesLoaded := 0, allImages := [], gallery_grid := Some []\<rparr>, snd sp)"
    have "gallery_grid (fst ?tp) \<noteq> None" "allImages (fst ?tp) = []" by simp_all
    from inv [OF this, of imagesPerLoad] show ?thesis
      using Invoke Reload g by (simp add: Gallery_reload_def Let_def)
  qed
next
  case (Settle i out)
  with assms(3) have out: "fetched_array out = Some []" by simp
  show ?thesis using Settle assms(1,2)
    by (cases sp) (simp add: loadImages_resume_fetched [OF out] loadImages_show_eq page_Nil)
qed

lemma gallery_empty_run:
  "gallery_grid (fst sp) \<noteq> None \<Longrightarrow> allImages (fst sp) = [] \<Longrightarrow> empty_answers events \<Longrightarrow>
   gallery_fetches (fst (gallery_run sp events)) =
     gallery_fetches (fst sp) + length (filter is_invoke events)"
proof (induction sp events rule: gallery_run.induct)
  case (1 sp)
  then show ?case by simp
next
  case (2 sp e rest)
  from "2.prems" have e: "empty_answer e" and rest: "empty_answers rest"
    by (simp_all add: empty_answers_def)
  from gallery_empty_event [OF "2.prems"(1,2) e] "2.IH" rest
  show ?case by simp
qed



subsection \<open>Schedules from the start of the page\<close>

lemmas run_defs = seven_def nothing_def projects_start_def gallery_start_def
  projects_init_def gallery_init_def
  loadProjects_def loadProjects_try_def loadImages_def loadImages_try_def
  loadProjects_start_def loadProjects_resume_def loadProjects_show_def
  loadImages_start_def loadImages_resume_def loadImages_show_def
  projects_invoke_def gallery_invoke_def
  Projects_reload_def Gallery_reload_def projectsPerLoad_def imagesPerLoad_def
  js_slice_def response_ok_def Let_def

lemma six: "(0::int) \<le> projectsPerLoad" "nat projectsPerLoad = 6"
  "(0::int) \<le> imagesPerLoad" "nat imagesPerLoad = 6"
  by (simp_all add: projectsPerLoad_def imagesPerLoad_def)

lemma page_six:
  assumes "loaded \<le> length xs"
  shows "page xs loaded 6 = take (min (loaded + 6) (length xs) - loaded) (drop loaded xs)"
    and "loaded + length (page xs loaded 6) = min (loaded + 6) (length xs)"
proof -
  show a: "page xs loaded 6 = take (min (loaded + 6) (length xs) - loaded) (drop loaded xs)"
    using page_nonneg [OF assms, of 6] by simp
  show "loaded + length (page xs loaded 6) = min (loaded + 6) (length xs)"
    unfolding a using assms by (auto simp add: min_def)
qed

lemma projects_law_invoke:
  assumes "projects_grid s = Some gr" "allProjects s \<noteq> []"
    "projectsLoaded s \<le> length (allProjects s)"
    "(s', p') = projects_event (Invoke LoadMore) (s, p)"
  shows "allProjects s' = allProjects s \<and>
         projects_grid s' =
           Some (gr @ map Card (take (min (projectsLoaded s + 6) (length (allProjects s')) - projectsLoaded s)
                                     (drop (projectsLoaded s) (allProjects s')))) \<and>
         projectsLoaded s' = min (projectsLoaded s + 6) (length (allProjects s'))"
proof -
  from assms(4) have "s' = loadProjects_show 6 s"
    using assms(1,2) by (simp add: projects_invoke_def loadProjects_start_cached projectsPerLoad_def)
  then show ?thesis
    using page_six [OF assms(3)] assms(1) by (simp add: loadProjects_show_eq)
qed

lemma projects_law_settle:
  assumes "i < length p" "p ! i = projectsPerLoad" "fetched_array out = Some xs"
    "projectsLoaded s \<le> length (rev xs)"
    "(s', p') = projects_event (Settle i out) (s, p)"
  shows "allProjects s' = rev xs \<and>
         projects_grid s' =
           Some (map Card (take (min (projectsLoaded s + 6) (length (allProjects s')) - projectsLoaded s)
                                (drop (projectsLoaded s) (allProjects s')))) \<and>
         projectsLoaded s' = min (projectsLoaded s + 6) (length (allProjects s'))"
proof -
  from assms(5) have "s' = loadProjects_show 6 (s\<lparr>allProjects := rev xs, projects_grid := Some []\<rparr>)"
    using assms(1,2,3) by (simp add: loadProjects_resume_fetched projectsPerLoad_def)
  then show ?thesis
    using page_six [OF assms(4)] by (simp add: loadProjects_show_eq)
qed

lemma gallery_law_invoke:
  assumes "gallery_grid s = Some gr" "allImages s \<noteq> []"
    "imagesLoaded s \<le> length (allImages s)"
    "(s', p') = gallery_event (Invoke LoadMore) (s, p)"
  shows "allImages s' = allImages s \<and>
         gallery_grid s' =
           Some (gr @ map Card (take (min (imagesLoaded s + 6) (length (allImages s')) - imagesLoaded s)
                                     (drop (imagesLoaded s) (allImages s')))) \<and>
         imagesLoaded s' = min (imagesLoaded s + 6) (length (allImages s'))"
proof -
  from assms(4) have "s' = loadImages_show 6 s"
    using assms(1,2) by (simp add: gallery_invoke_def loadImages_start_cached imagesPerLoad_def)
  then show ?thesis
    using page_six [OF assms(3)] assms(1) by (simp add: loadImages_show_eq)
qed

lemma gallery_law_settle:
  assumes "i < length p" "p ! i = imagesPerLoad" "fetched_array out = Some xs"
    "imagesLoaded s \<le> length xs" "gallery_grid s = Some gr"
    "(s', p') = gallery_event (Settle i out) (s, p)"
  shows "allImages s' = xs \<and>
         gallery_grid s' =
           Some (gr @ map Card (take (min (imagesLoaded s + 6) (length (allImages s')) - imagesLoaded s)
                                (drop (imagesLoaded s) (allImages s')))) \<and>
         imagesLoaded s' = min (imagesLoaded s + 6) (length (allImages s'))"
proof -
  from assms(6) have "s' = loadImages_show 6 (s\<lparr>allImages := xs\<rparr>)"
    using assms(1,2,3) by (simp add: loadImages_resume_fetched imagesPerLoad_def)
  then show ?thesis
    using page_six [OF assms(4)] assms(5) by (simp add: loadImages_show_eq)
qed

text \<open>
  C1, as amended. Take any schedule of load-more invocations, overlapping or not, against
  a static resource delivering \<open>xs\<close>, from the start of a page whose grid holds no card.
  In the state it reaches, the cards of the grid are consecutive records of the array,
  ending where the loaded count stands, so no record shows twice; and no further event
  of such a schedule lowers the count. An invocation that finds the array in memory, and
  a pending invocation whose fetch succeeds, render exactly the records from the loaded
  count up to \<open>min (loaded + 6) total\<close> of the array then in memory and move the count to
  that bound. For the projects loader and for the gallery loader.
\<close>

theorem load_more_renders_next_slice:
  assumes "cards g = []" and "load_more_calls xs events"
    and "(s, pending) = projects_run (projects_init g b, []) events"
    and "(s', pending') = projects_event e (s, pending)"
    and "(t, waiting) = gallery_run (gallery_init g b, []) events"
    and "(t', waiting') = gallery_event e (t, waiting)"
  shows
    "(length (cards (projects_grid s)) \<le> projectsLoaded s \<and>
      cards (projects_grid s) =
        drop (projectsLoaded s - length (cards (projects_grid s)))
             (take (projectsLoaded s) (rev xs)) \<and>
      (distinct xs \<longrightarrow> distinct (cards (projects_grid s))) \<and>
      (load_more_event xs e \<longrightarrow> projectsLoaded s \<le> projectsLoaded s') \<and>
      (e = Invoke LoadMore \<and> projects_grid s = Some gr \<and> allProjects s \<noteq> [] \<longrightarrow>
         allProjects s' = allProjects s \<and>
         projects_grid s' =
           Some (gr @ map Card (take (min (projectsLoaded s + 6) (length (allProjects s')) - projectsLoaded s)
                                     (drop (projectsLoaded s) (allProjects s')))) \<and>
         projectsLoaded s' = min (projectsLoaded s + 6) (length (allProjects s'))) \<and>
      (e = Settle i out \<and> i < length pending \<and> fetched_array out = Some xs \<longrightarrow>
         allProjects s' = rev xs \<and>
         projects_grid s' =
           Some (map Card (take (min (projectsLoaded s + 6) (length (allProjects s')) - projectsLoaded s)
                                (drop (projectsLoaded s) (allProjects s')))) \<and>
         projectsLoaded s' = min (projectsLoaded s + 6) (length (allProjects s')))) \<and>
     (length (cards (gallery_grid t)) \<le> imagesLoaded t \<and>
      cards (gallery_grid t) =
        drop (imagesLoaded t - length (cards (gallery_grid t))) (take (imagesLoaded t) xs) \<and>
      (distinct xs \<longrightarrow> distinct (cards (gallery_grid t))) \<and>
      (load_more_event xs e \<longrightarrow> imagesLoaded t \<le> imagesLoaded t') \<and>
      (e = Invoke LoadMore \<and> gallery_grid t = Some gr \<and> allImages t \<noteq> [] \<longrightarrow>
         allImages t' = allImages t \<and>
         gallery_grid t' =
           Some (gr @ map Card (take (min (imagesLoaded t + 6) (length (allImages t')) - imagesLoaded t)
                                     (drop (imagesLoaded t) (allImages t')))) \<and>
         imagesLoaded t' = min (imagesLoaded t + 6) (length (allImages t'))) \<and>
      (e = Settle i out \<and> i < length waiting \<and> fetched_array out = Some xs \<and>
       gallery_grid t = Some gr \<longrightarrow>
         allImages t' = xs \<and>
         gallery_grid t' =
           Some (gr @ map Card (take (min (imagesLoaded t + 6) (length (allImages t')) - imagesLoaded t)
                                     (drop (imagesLoaded t) (allImages t')))) \<and>
         imagesLoaded t' = min (imagesLoaded t + 6) (length (allImages t'))))"
proof -
  have st: "static_calls xs events" using assms(2) by (rule load_more_calls_static)
  have s: "s = fst (projects_run (projects_init g b, []) events)"
    and p: "pending = snd (projects_run (projects_init g b, []) events)"
    using assms(3) by (metis fst_conv, metis snd_conv)
  have t: "t = fst (gallery_run (gallery_init g b, []) events)"
    and w: "waiting = snd (gallery_run (gallery_init g b, []) events)"
    using assms(5) by (metis fst_conv, metis snd_conv)
  have pi: "projects_inv xs s"
    unfolding s using assms(1) st by (intro projects_inv_run) (simp_all add: projects_inv_init)
  have gi: "gallery_inv xs t"
    unfolding t using assms(1) st by (intro gallery_inv_run) (simp_all add: gallery_inv_init)
  have pp: "list_all (\<lambda>c. c = projectsPerLoad) pending"
    unfolding p using assms(2) by (intro projects_pending_run) simp_all
  have gp: "list_all (\<lambda>c. c = imagesPerLoad) waiting"
    unfolding w using assms(2) by (intro gallery_pending_run) simp_all
  from pi have pseg: "segment_inv (rev xs) (allProjects s) (projectsLoaded s) (cards (projects_grid s))"
    by (simp add: projects_inv_def)
  from gi have gseg: "segment_inv xs (allImages t) (imagesLoaded t) (cards (gallery_grid t))"
    by (simp add: gallery_inv_def)
  have p1: "length (cards (projects_grid s)) \<le> projectsLoaded s \<and>
      cards (projects_grid s) =
        drop (projectsLoaded s - length (cards (projects_grid s)))
             (take (projectsLoaded s) (rev xs))"
    using pseg by (simp add: segment_inv_def)
  have g1: "length (cards (gallery_grid t)) \<le> imagesLoaded t \<and>
      cards (gallery_grid t) =
        drop (imagesLoaded t - length (cards (gallery_grid t))) (take (imagesLoaded t) xs)"
    using gseg by (simp add: segment_inv_def)
  have p2: "distinct xs \<longrightarrow> distinct (cards (projects_grid s))"
    using segment_distinct [OF pseg] by simp
  have g2: "distinct xs \<longrightarrow> distinct (cards (gallery_grid t))"
    using segment_distinct [OF gseg] by simp
  have p3: "load_more_event xs e \<longrightarrow> projectsLoaded s \<le> projectsLoaded s'"
    using projects_loaded_mono [of xs e "(s, pending)"] assms(4) [symmetric]
    by (simp add: load_more_static)
  have g3: "load_more_event xs e \<longrightarrow> imagesLoaded t \<le> imagesLoaded t'"
    using gallery_loaded_mono [of xs e "(t, waiting)"] assms(6) [symmetric]
    by (simp add: load_more_static)
  have ple: "projectsLoaded s \<le> length (allProjects s)" "projectsLoaded s \<le> length (rev xs)"
    using pseg segment_held(1) [OF pseg] by (simp_all add: segment_inv_def)
  have gle: "imagesLoaded t \<le> length (allImages t)" "imagesLoaded t \<le> length xs"
    using gseg segment_held(1) [OF gseg] by (simp_all add: segment_inv_def)
  have p4: "e = Invoke LoadMore \<and> projects_grid s = Some gr \<and> allProjects s \<noteq> [] \<longrightarrow>
         allProjects s' = allProjects s \<and>
         projects_grid s' =
           Some (gr @ map Card (take (min (projectsLoaded s + 6) (length (allProjects s')) - projectsLoaded s)
                                     (drop (projectsLoaded s) (allProjects s')))) \<and>
         projectsLoaded s' = min (projectsLoaded s + 6) (length (allProjects s'))"
    using projects_law_invoke [OF _ _ ple(1), of gr s' pending' pending] assms(4) by blast
  have g4: "e = Invoke LoadMore \<and> gallery_grid t = Some gr \<and> allImages t \<noteq> [] \<longrightarrow>
         allImages t' = allImages t \<and>
         gallery_grid t' =
           Some (gr @ map Card (take (min (imagesLoaded t + 6) (length (allImages t')) - imagesLoaded t)
                                     (drop (imagesLoaded t) (allImages t')))) \<and>
         imagesLoaded t' = min (imagesLoaded t + 6) (length (allImages t'))"
    using gallery_law_invoke [OF _ _ gle(1), of gr t' waiting' waiting] assms(6) by blast
  have p5: "e = Settle i out \<and> i < length pending \<and> fetched_array out = Some xs \<longrightarrow>
         allProjects s' = rev xs \<and>
         projects_grid s' =
           Some (map Card (take (min (projectsLoaded s + 6) (length (allProjects s')) - projectsLoaded s)
                                (drop (projectsLoaded s) (allProjects s')))) \<and>
         projectsLoaded s' = min (projectsLoaded s + 6) (length (allProjects s'))"
  proof (intro impI, elim conjE)
    assume e: "e = Settle i out" and i: "i < length pending" and out: "fetched_array out = Some xs"
    from pp i have "pending ! i = projectsPerLoad" by (simp add: list_all_length)
    from projects_law_settle [OF i this out ple(2), of s' pending'] assms(4) e
    show "allProjects s' = rev xs \<and>
         projects_grid s' =
           Some (map Card (take (min (projectsLoaded s + 6) (length (allProjects s')) - projectsLoaded s)
                                (drop (projectsLoaded s) (allProjects s')))) \<and>
         projectsLoaded s' = min (projectsLoaded s + 6) (length (allProjects s'))" by simp
  qed
  have g5: "e = Settle i out \<and> i < length waiting \<and> fetched_array out = Some xs \<and>
       gallery_grid t = Some gr \<longrightarrow>
         allImages t' = xs \<and>
         gallery_grid t' =
           Some (gr @ map Card (take (min (imagesLoaded t + 6) (length (allImages t')) - imagesLoaded t)
                                     (drop (imagesLoaded t) (allImages t')))) \<and>
         imagesLoaded t' = min (imagesLoaded t + 6) (length (allImages t'))"
  proof (intro impI, elim conjE)
    assume e: "e = Settle i out" and i: "i < length waiting" and out: "fetched_array out = Some xs"
      and gr: "gallery_grid t = Some gr"
    from gp i have "waiting ! i = imagesPerLoad" by (simp add: list_all_length)
    from gallery_law_settle [OF i this out gle(2) gr, of t' waiting'] assms(6) e
    show "allImages t' = xs \<and>
         gallery_grid t' =
           Some (gr @ map Card (take (min (imagesLoaded t + 6) (length (allImages t')) - imagesLoaded t)
                                     (drop (imagesLoaded t) (allImages t')))) \<and>
         imagesLoaded t' = min (imagesLoaded t + 6) (length (allImages t'))" by simp
  qed
  from p1 p2 p3 p4 p5 g1 g2 g3 g4 g5 show ?thesis by blast
qed

theorem load_more_renders_next_slice_witness:
  "load_more_calls [1, 2, 3, 4, 5, 6, 7 :: nat] [Invoke LoadMore, Invoke LoadMore, Settle 1 seven] \<and>
   projects_run (projects_start, [])
       [Invoke LoadMore, Invoke LoadMore, Settle 1 seven] =
     (\<lparr>projectsLoaded = 6, allProjects = [7, 6, 5, 4, 3, 2, 1],
       projects_grid = Some [Card 7, Card 6, Card 5, Card 4, Card 3, Card 2],
       load_more_projects = Some Visible, projects_fetches = 2\<rparr>, [6]) \<and>
   projects_grid (fst (projects_run (projects_start, [])
       [Invoke LoadMore, Invoke LoadMore, Settle 1 seven, Settle 0 seven])) = Some [Card 1] \<and>
   projectsLoaded (fst (projects_run (projects_start, [])
       [Invoke LoadMore, Invoke LoadMore, Settle 1 seven, Settle 0 seven])) = 7 \<and>
   projects_grid (fst (projects_run (projects_start, [])
       [Invoke LoadMore, Invoke LoadMore, Settle 1 seven, Invoke LoadMore])) =
     Some [Card 7, Card 6, Card 5, Card 4, Card 3, Card 2, Card 1] \<and>
   gallery_grid (fst (gallery_run (gallery_start, [])
       [Invoke LoadMore, Invoke LoadMore, Settle 1 seven, Settle 0 seven])) =
     Some [Markup, Card 1, Card 2, Card 3, Card 4, Card 5, Card 6, Card 7] \<and>
   imagesLoaded (fst (gallery_run (gallery_start, [])
       [Invoke LoadMore, Invoke LoadMore, Settle 1 seven, Settle 0 seven])) = 7 \<and>
   gallery_grid (fst (gallery_run (gallery_start, [])
       [Invoke LoadMore, Invoke LoadMore, Settle 1 seven, Invoke LoadMore])) =
     Some [Markup, Card 1, Card 2, Card 3, Card 4, Card 5, Card 6, Card 7]"
proof -
  let ?events = "[Invoke LoadMore, Invoke LoadMore, Settle 1 seven]"
  let ?s = "\<lparr>projectsLoaded = 6, allProjects = [7, 6, 5, 4, 3, 2, 1 :: nat],
       projects_grid = Some [Card 7, Card 6, Card 5, Card 4, Card 3, Card 2],
       load_more_projects = Some Visible, projects_fetches = 2\<rparr>"
  let ?t = "\<lparr>imagesLoaded = 6, allImages = [1, 2, 3, 4, 5, 6, 7 :: nat],
       gallery_grid = Some [Markup, Card 1, Card 2, Card 3, Card 4, Card 5, Card 6],
       load_more = Some Visible, gallery_fetches = 2\<rparr>"
  have c: "cards (Some [Markup :: nat node]) = []" by simp
  have sv: "fetched_array seven = Some [1, 2, 3, 4, 5, 6, 7]"
    by (simp add: fetched_array_def seven_def response_ok_def)
  have lm: "load_more_calls [1, 2, 3, 4, 5, 6, 7] ?events"
    by (simp add: load_more_calls_def sv)
  have rs: "(?s, [6]) = projects_run (projects_init (Some [Markup]) (Some Visible), []) ?events"
    by (simp add: run_defs)
  have rt: "(?t, [6]) = gallery_run (gallery_init (Some [Markup]) (Some Visible), []) ?events"
    by (simp add: run_defs)
  have split: "projects_run sp [a, b, c, d] = projects_event d (projects_run sp [a, b, c])"
    "gallery_run tp [a, b, c, d] = gallery_event d (gallery_run tp [a, b, c])"
    for sp :: "nat projects_state \<times> int list" and tp :: "nat gallery_state \<times> int list"
      and a b c d
    by simp_all
  note settle = load_more_renders_next_slice
    [where e = "Settle 0 seven" and i = 0 and out = seven
       and gr = "[Markup, Card 1, Card 2, Card 3, Card 4, Card 5, Card 6]",
     OF c lm rs prod.collapse rt prod.collapse]
  note invoke = load_more_renders_next_slice
    [where e = "Invoke LoadMore" and gr = "[Card 7, Card 6, Card 5, Card 4, Card 3, Card 2]",
     OF c lm rs prod.collapse rt prod.collapse]
  note invoke' = load_more_renders_next_slice
    [where e = "Invoke LoadMore"
       and gr = "[Markup, Card 1, Card 2, Card 3, Card 4, Card 5, Card 6]",
     OF c lm rs prod.collapse rt prod.collapse]
  have p1: "projects_grid (fst (projects_event (Settle 0 seven) (?s, [6]))) = Some [Card 1] \<and>
            projectsLoaded (fst (projects_event (Settle 0 seven) (?s, [6]))) = 7"
    using settle by (simp add: sv)
  have g1: "gallery_grid (fst (gallery_event (Settle 0 seven) (?t, [6]))) =
              Some [Markup, Card 1, Card 2, Card 3, Card 4, Card 5, Card 6, Card 7] \<and>
            imagesLoaded (fst (gallery_event (Settle 0 seven) (?t, [6]))) = 7"
    using settle by (simp add: sv)
  have p2: "projects_grid (fst (projects_event (Invoke LoadMore) (?s, [6]))) =
              Some [Card 7, Card 6, Card 5, Card 4, Card 3, Card 2, Card 1]"
    using invoke by simp
  have g2: "gallery_grid (fst (gallery_event (Invoke LoadMore) (?t, [6]))) =
              Some [Markup, Card 1, Card 2, Card 3, Card 4, Card 5, Card 6, Card 7]"
    using invoke' by simp
  show ?thesis
    unfolding split projects_start_def gallery_start_def rs [symmetric] rt [symmetric]
    using lm p1 g1 p2 g2 by simp
qed

text \<open>
  C1 as stated fails for an invocation whose fetch fails while another invocation has
  put the array in memory: with six of seven records loaded, the slice from the loaded
  count is not empty, and the invocation renders nothing, advances nothing, and leaves
  the error message in the grid.
\<close>

theorem load_more_renders_next_slice_counterexample:
  "snd (gallery_run (gallery_start, []) [Invoke LoadMore, Invoke LoadMore, Settle 0 seven]) =
     [imagesPerLoad] \<and>
   imagesLoaded (fst (gallery_run (gallery_start, [])
     [Invoke LoadMore, Invoke LoadMore, Settle 0 seven])) = 6 \<and>
   page (allImages (fst (gallery_run (gallery_start, [])
           [Invoke LoadMore, Invoke LoadMore, Settle 0 seven, Settle 0 Rejected])))
        6 imagesPerLoad = [7] \<and>
   gallery_grid (fst (gallery_run (gallery_start, [])
     [Invoke LoadMore, Invoke LoadMore, Settle 0 seven, Settle 0 Rejected])) =
     Some [ErrorMessage] \<and>
   imagesLoaded (fst (gallery_run (gallery_start, [])
     [Invoke LoadMore, Invoke LoadMore, Settle 0 seven, Settle 0 Rejected])) = 6 \<and>
   snd (projects_run (projects_start, []) [Invoke LoadMore, Invoke LoadMore, Settle 0 seven]) =
     [projectsPerLoad] \<and>
   projectsLoaded (fst (projects_run (projects_start, [])
     [Invoke LoadMore, Invoke LoadMore, Settle 0 seven])) = 6 \<and>
   page (allProjects (fst (projects_run (projects_start, [])
           [Invoke LoadMore, Invoke LoadMore, Settle 0 seven, Settle 0 Rejected])))
        6 projectsPerLoad = [1] \<and>
   projects_grid (fst (projects_run (projects_start, [])
     [Invoke LoadMore, Invoke LoadMore, Settle 0 seven, Settle 0 Rejected])) =
     Some [ErrorMessage] \<and>
   projectsLoaded (fst (projects_run (projects_start, [])
     [Invoke LoadMore, Invoke LoadMore, Settle 0 seven, Settle 0 Rejected])) = 6"
  by (simp add: run_defs page_def)

text \<open>
  C2, as amended. In every state reached from the start of the page by a schedule of
  load, load-more and reload invocations, where the button exists: when a non-empty
  array is in memory and all of it is loaded, the button is hidden. In every state
  reached without reload, where every fetch that succeeds delivers the same array and
  the button is not hidden at the start: when the button is hidden, all of the array is
  loaded. For the projects loader and for the gallery loader.
\<close>

theorem load_more_button_hidden:
  "(b \<noteq> None \<and> allProjects (fst (projects_run (projects_init g b, []) events)) \<noteq> [] \<and>
    projectsLoaded (fst (projects_run (projects_init g b, []) events)) =
      length (allProjects (fst (projects_run (projects_init g b, []) events)))
    \<longrightarrow> load_more_projects (fst (projects_run (projects_init g b, []) events)) =
          Some DisplayNone) \<and>
   (b \<noteq> Some DisplayNone \<and> static_calls xs events \<and>
    load_more_projects (fst (projects_run (projects_init g b, []) events)) = Some DisplayNone
    \<longrightarrow> projectsLoaded (fst (projects_run (projects_init g b, []) events)) =
          length (allProjects (fst (projects_run (projects_init g b, []) events)))) \<and>
   (b \<noteq> None \<and> allImages (fst (gallery_run (gallery_init g b, []) events)) \<noteq> [] \<and>
    imagesLoaded (fst (gallery_run (gallery_init g b, []) events)) =
      length (allImages (fst (gallery_run (gallery_init g b, []) events)))
    \<longrightarrow> load_more (fst (gallery_run (gallery_init g b, []) events)) = Some DisplayNone) \<and>
   (b \<noteq> Some DisplayNone \<and> static_calls xs events \<and>
    load_more (fst (gallery_run (gallery_init g b, []) events)) = Some DisplayNone
    \<longrightarrow> imagesLoaded (fst (gallery_run (gallery_init g b, []) events)) =
          length (allImages (fst (gallery_run (gallery_init g b, []) events))))"
proof -
  have "b \<noteq> None \<Longrightarrow> projects_hide_inv (fst (projects_run (projects_init g b, []) events))"
    by (simp add: projects_hide_init projects_hide_run)
  then have p1: "b \<noteq> None \<and> allProjects (fst (projects_run (projects_init g b, []) events)) \<noteq> [] \<and>
    projectsLoaded (fst (projects_run (projects_init g b, []) events)) =
      length (allProjects (fst (projects_run (projects_init g b, []) events)))
    \<longrightarrow> load_more_projects (fst (projects_run (projects_init g b, []) events)) =
          Some DisplayNone"
    by (auto simp add: projects_hide_inv_def)
  have "b \<noteq> Some DisplayNone \<Longrightarrow> static_calls xs events \<Longrightarrow>
        projects_show_inv xs (fst (projects_run (projects_init g b, []) events))"
    by (simp add: projects_show_init projects_show_run)
  then have p2: "b \<noteq> Some DisplayNone \<and> static_calls xs events \<and>
    load_more_projects (fst (projects_run (projects_init g b, []) events)) = Some DisplayNone
    \<longrightarrow> projectsLoaded (fst (projects_run (projects_init g b, []) events)) =
          length (allProjects (fst (projects_run (projects_init g b, []) events)))"
    by (auto simp add: projects_show_inv_def)
  have "b \<noteq> None \<Longrightarrow> gallery_hide_inv (fst (gallery_run (gallery_init g b, []) events))"
    by (simp add: gallery_hide_init gallery_hide_run)
  then have g1: "b \<noteq> None \<and> allImages (fst (gallery_run (gallery_init g b, []) events)) \<noteq> [] \<and>
    imagesLoaded (fst (gallery_run (gallery_init g b, []) events)) =
      length (allImages (fst (gallery_run (gallery_init g b, []) events)))
    \<longrightarrow> load_more (fst (gallery_run (gallery_init g b, []) events)) = Some DisplayNone"
    by (auto simp add: gallery_hide_inv_def)
  have "b \<noteq> Some DisplayNone \<Longrightarrow> static_calls xs events \<Longrightarrow>
        gallery_show_inv xs (fst (gallery_run (gallery_init g b, []) events))"
    by (simp add: gallery_show_init gallery_show_run)
  then have g2: "b \<noteq> Some DisplayNone \<and> static_calls xs events \<and>
    load_more (fst (gallery_run (gallery_init g b, []) events)) = Some DisplayNone
    \<longrightarrow> imagesLoaded (fst (gallery_run (gallery_init g b, []) events)) =
          length (allImages (fst (gallery_run (gallery_init g b, []) events)))"
    by (auto simp add: gallery_show_inv_def)
  from p1 p2 g1 g2 show ?thesis by blast
qed

theorem load_more_button_hidden_witness:
  "static_calls [1, 2, 3, 4, 5, 6, 7 :: nat]
     [Invoke LoadMore, Settle 0 seven, Invoke LoadMore, Settle 0 Rejected] \<and>
   load_more_projects (fst (projects_run (projects_init (Some [Markup]) (Some Visible), [])
      [Invoke LoadMore, Settle 0 seven, Invoke LoadMore, Settle 0 Rejected])) = Some DisplayNone \<and>
   allProjects (fst (projects_run (projects_init (Some [Markup]) (Some Visible), [])
      [Invoke LoadMore, Settle 0 seven, Invoke LoadMore, Settle 0 Rejected])) \<noteq> [] \<and>
   projectsLoaded (fst (projects_run (projects_init (Some [Markup]) (Some Visible), [])
      [Invoke LoadMore, Settle 0 seven, Invoke LoadMore, Settle 0 Rejected])) =
     length (allProjects (fst (projects_run (projects_init (Some [Markup]) (Some Visible), [])
      [Invoke LoadMore, Settle 0 seven, Invoke LoadMore, Settle 0 Rejected]))) \<and>
   load_more (fst (gallery_run (gallery_init (Some [Markup]) (Some Visible), [])
      [Invoke LoadMore, Settle 0 seven, Invoke LoadMore, Settle 0 Rejected])) = Some DisplayNone \<and>
   allImages (fst (gallery_run (gallery_init (Some [Markup]) (Some Visible), [])
      [Invoke LoadMore, Settle 0 seven, Invoke LoadMore, Settle 0 Rejected])) \<noteq> [] \<and>
   imagesLoaded (fst (gallery_run (gallery_init (Some [Markup]) (Some Visible), [])
      [Invoke LoadMore, Settle 0 seven, Invoke LoadMore, Settle 0 Rejected])) =
     length (allImages (fst (gallery_run (gallery_init (Some [Markup]) (Some Visible), [])
      [Invoke LoadMore, Settle 0 seven, Invoke LoadMore, Settle 0 Rejected])))"
  using load_more_button_hidden
    [of "Some Visible" "Some [Markup]"
        "[Invoke LoadMore, Settle 0 seven, Invoke LoadMore, Settle 0 Rejected]"
        "[1, 2, 3, 4, 5, 6, 7]"]
  by (simp add: run_defs static_calls_def fetched_array_def)

text \<open>
  C2 as stated fails: after two loads of a seven-record array the button is hidden, and
  a reload then shows six of seven records under a button that stays hidden; and after a
  load whose fetch is rejected nothing is in memory, so the loaded count equals the
  total, and the button shows.
\<close>

theorem load_more_button_counterexample:
  "\<not> (load_more_projects (fst (projects_run (projects_start, [])
          [Invoke LoadMore, Settle 0 seven, Invoke LoadMore, Invoke Reload, Settle 0 seven]))
         = Some DisplayNone
       \<longleftrightarrow> projectsLoaded (fst (projects_run (projects_start, [])
          [Invoke LoadMore, Settle 0 seven, Invoke LoadMore, Invoke Reload, Settle 0 seven])) =
         length (allProjects (fst (projects_run (projects_start, [])
          [Invoke LoadMore, Settle 0 seven, Invoke LoadMore, Invoke Reload, Settle 0 seven])))) \<and>
   \<not> (load_more (fst (gallery_run (gallery_start, [])
          [Invoke LoadMore, Settle 0 seven, Invoke LoadMore, Invoke Reload, Settle 0 seven]))
         = Some DisplayNone
       \<longleftrightarrow> imagesLoaded (fst (gallery_run (gallery_start, [])
          [Invoke LoadMore, Settle 0 seven, Invoke LoadMore, Invoke Reload, Settle 0 seven])) =
         length (allImages (fst (gallery_run (gallery_start, [])
          [Invoke LoadMore, Settle 0 seven, Invoke LoadMore, Invoke Reload, Settle 0 seven])))) \<and>
   \<not> (load_more_projects (fst (projects_run (projects_start, [])
          [Invoke LoadMore, Settle 0 Rejected])) = Some DisplayNone
       \<longleftrightarrow> projectsLoaded (fst (projects_run (projects_start, [])
          [Invoke LoadMore, Settle 0 Rejected])) =
         length (allProjects (fst (projects_run (projects_start, [])
          [Invoke LoadMore, Settle 0 Rejected]))))"
  by (simp add: run_defs)



text \<open>
  C9, as amended. From the start of a page with a grid, when the fetch of the first
  invocation has delivered a non-empty array before the next invocation starts, no later
  load or load-more invocation of a schedule against the static resource fetches: one
  fetch in all. More generally, from any state with the array of the resource in memory
  such a schedule fetches nothing and keeps the array. When every answer delivers the
  empty array, every invocation fetches. For the projects loader and for the gallery
  loader.
\<close>

theorem fetched_once:
  "(call \<noteq> Reload \<and> fetched_array out = Some xs \<and> xs \<noteq> [] \<and> static_calls xs events
    \<longrightarrow> projects_fetches (fst (projects_run (projects_init (Some g) b, [])
            (Invoke call # Settle 0 out # events))) = 1 \<and>
        allProjects (fst (projects_run (projects_init (Some g) b, [])
            (Invoke call # Settle 0 out # events))) = rev xs) \<and>
   (allProjects (fst sp) = rev xs \<and> xs \<noteq> [] \<and> static_calls xs events
    \<longrightarrow> projects_fetches (fst (projects_run sp events)) = projects_fetches (fst sp) \<and>
        allProjects (fst (projects_run sp events)) = rev xs) \<and>
   (empty_answers events
    \<longrightarrow> projects_fetches (fst (projects_run (projects_init (Some g) b, []) events)) =
          length (filter is_invoke events)) \<and>
   (call \<noteq> Reload \<and> fetched_array out = Some xs \<and> xs \<noteq> [] \<and> static_calls xs events
    \<longrightarrow> gallery_fetches (fst (gallery_run (gallery_init (Some g) b, [])
            (Invoke call # Settle 0 out # events))) = 1 \<and>
        allImages (fst (gallery_run (gallery_init (Some g) b, [])
            (Invoke call # Settle 0 out # events))) = xs) \<and>
   (allImages (fst tp) = xs \<and> xs \<noteq> [] \<and> static_calls xs events
    \<longrightarrow> gallery_fetches (fst (gallery_run tp events)) = gallery_fetches (fst tp) \<and>
        allImages (fst (gallery_run tp events)) = xs) \<and>
   (empty_answers events
    \<longrightarrow> gallery_fetches (fst (gallery_run (gallery_init (Some g) b, []) events)) =
          length (filter is_invoke events))"
proof -
  have p1: "projects_fetches (fst (projects_run (projects_init (Some g) b, [])
            (Invoke call # Settle 0 out # events))) = 1 \<and>
        allProjects (fst (projects_run (projects_init (Some g) b, [])
            (Invoke call # Settle 0 out # events))) = rev xs"
    if "call \<noteq> Reload" "fetched_array out = Some xs" "xs \<noteq> []" "static_calls xs events"
  proof -
    let ?first = "projects_event (Settle 0 out)
                    (projects_event (Invoke call) (projects_init (Some g) b, []))"
    have "projects_invoke c (projects_init (Some g) b, []) =
            ((projects_init (Some g) b)\<lparr>projects_grid := Some [LoadingMessage],
               projects_fetches := 1\<rparr>, [c])" for c
      by (simp add: projects_invoke_def loadProjects_start_def projects_init_def)
    then have "allProjects (fst ?first) = rev xs \<and> projects_fetches (fst ?first) = 1"
      using that(1,2)
      by (cases call)
         (simp_all add: loadProjects_resume_fetched loadProjects_show_eq projects_init_def)
    with projects_cached_run [of ?first xs events] that(3,4) show ?thesis by simp
  qed
  have g1: "gallery_fetches (fst (gallery_run (gallery_init (Some g) b, [])
            (Invoke call # Settle 0 out # events))) = 1 \<and>
        allImages (fst (gallery_run (gallery_init (Some g) b, [])
            (Invoke call # Settle 0 out # events))) = xs"
    if "call \<noteq> Reload" "fetched_array out = Some xs" "xs \<noteq> []" "static_calls xs events"
  proof -
    let ?first = "gallery_event (Settle 0 out)
                    (gallery_event (Invoke call) (gallery_init (Some g) b, []))"
    have "gallery_invoke c (gallery_init (Some g) b, []) =
            ((gallery_init (Some g) b)\<lparr>gallery_fetches := 1\<rparr>, [c])" for c
      by (simp add: gallery_invoke_def loadImages_start_def gallery_init_def)
    then have "allImages (fst ?first) = xs \<and> gallery_fetches (fst ?first) = 1"
      using that(1,2)
      by (cases call)
         (simp_all add: loadImages_resume_fetched loadImages_show_eq gallery_init_def)
    with gallery_cached_run [of ?first xs events] that(3,4) show ?thesis by simp
  qed
  have p2: "projects_fetches (fst (projects_run sp events)) = projects_fetches (fst sp) \<and>
        allProjects (fst (projects_run sp events)) = rev xs"
    if "allProjects (fst sp) = rev xs" "xs \<noteq> []" "static_calls xs events"
    using projects_cached_run [OF that(1,3,2)] .
  have g2: "gallery_fetches (fst (gallery_run tp events)) = gallery_fetches (fst tp) \<and>
        allImages (fst (gallery_run tp events)) = xs"
    if "allImages (fst tp) = xs" "xs \<noteq> []" "static_calls xs events"
    using gallery_cached_run [OF that(1,3,2)] .
  have p3: "projects_fetches (fst (projects_run (projects_init (Some g) b, []) events)) =
          length (filter is_invoke events)"
    if "empty_answers events"
    using projects_empty_run [of "(projects_init (Some g) b, [])" events] that
    by (simp add: projects_init_def)
  have g3: "gallery_fetches (fst (gallery_run (gallery_init (Some g) b, []) events)) =
          length (filter is_invoke events)"
    if "empty_answers events"
    using gallery_empty_run [of "(gallery_init (Some g) b, [])" events] that
    by (simp add: gallery_init_def)
  from p1 p2 p3 g1 g2 g3 show ?thesis by blast
qed

theorem fetched_once_witness:
  "static_calls [1, 2, 3, 4, 5, 6, 7 :: nat]
     [Invoke LoadMore, Invoke (Load 2), Settle 0 Rejected] \<and>
   projects_fetches (fst (projects_run (projects_start, [])
      [Invoke LoadMore, Settle 0 seven, Invoke LoadMore, Invoke (Load 2), Settle 0 Rejected])) = 1 \<and>
   gallery_fetches (fst (gallery_run (gallery_start, [])
      [Invoke LoadMore, Settle 0 seven, Invoke LoadMore, Invoke (Load 2), Settle 0 Rejected])) = 1 \<and>
   empty_answers [Invoke LoadMore, Invoke Reload, Settle 1 nothing, Invoke LoadMore] \<and>
   projects_fetches (fst (projects_run (projects_start, [])
      [Invoke LoadMore, Invoke Reload, Settle 1 nothing, Invoke LoadMore])) = 3 \<and>
   gallery_fetches (fst (gallery_run (gallery_start, [])
      [Invoke LoadMore, Invoke Reload, Settle 1 nothing, Invoke LoadMore])) = 3"
proof -
  have a: "static_calls [1, 2, 3, 4, 5, 6, 7 :: nat]
             [Invoke LoadMore, Invoke (Load 2), Settle 0 Rejected]"
    by (simp add: static_calls_def fetched_array_def)
  have b: "empty_answers [Invoke LoadMore, Invoke Reload, Settle 1 nothing, Invoke LoadMore]"
    by (simp add: empty_answers_def fetched_array_def nothing_def response_ok_def)
  have c: "fetched_array seven = Some [1, 2, 3, 4, 5, 6, 7]"
    by (simp add: fetched_array_def seven_def response_ok_def)
  have f1: "projects_fetches (fst (projects_run (projects_start, [])
      [Invoke LoadMore, Settle 0 seven, Invoke LoadMore, Invoke (Load 2), Settle 0 Rejected])) = 1"
    "gallery_fetches (fst (gallery_run (gallery_start, [])
      [Invoke LoadMore, Settle 0 seven, Invoke LoadMore, Invoke (Load 2), Settle 0 Rejected])) = 1"
    using fetched_once [of LoadMore seven "[1, 2, 3, 4, 5, 6, 7]"
        "[Invoke LoadMore, Invoke (Load 2), Settle 0 Rejected]" "[Markup]" "Some Visible"]
      a c
    by (simp_all add: projects_start_def gallery_start_def)
  have f3: "projects_fetches (fst (projects_run (projects_start, [])
      [Invoke LoadMore, Invoke Reload, Settle 1 nothing, Invoke LoadMore])) = 3"
    "gallery_fetches (fst (gallery_run (gallery_start, [])
      [Invoke LoadMore, Invoke Reload, Settle 1 nothing, Invoke LoadMore])) = 3"
    using fetched_once [where g = "[Markup]" and b = "Some Visible"
        and events = "[Invoke LoadMore, Invoke Reload, Settle 1 nothing, Invoke LoadMore]"]
      b
    by (simp_all add: projects_start_def gallery_start_def)
  from a b f1 f3 show ?thesis by blast
qed

text \<open>
  C9 as stated fails for an empty array, where two load-more invocations fetch twice,
  and for a load-more invocation that starts while the fetch of the first one is
  pending, which finds no array in memory and fetches too.
\<close>

theorem fetched_once_counterexample:
  "\<not> projects_fetches (fst (projects_run (projects_start, [])
        [Invoke LoadMore, Settle 0 nothing, Invoke LoadMore, Settle 0 nothing])) \<le> 1 \<and>
   \<not> gallery_fetches (fst (gallery_run (gallery_start, [])
        [Invoke LoadMore, Settle 0 nothing, Invoke LoadMore, Settle 0 nothing])) \<le> 1 \<and>
   \<not> projects_fetches (fst (projects_run (projects_start, [])
        [Invoke LoadMore, Invoke LoadMore, Settle 0 seven, Settle 0 seven])) \<le> 1 \<and>
   \<not> gallery_fetches (fst (gallery_run (gallery_start, [])
        [Invoke LoadMore, Invoke LoadMore, Settle 0 seven, Settle 0 seven])) \<le> 1"
  by (simp add: run_defs)

section \<open>Properties of the theme controller\<close>

lemma themes_distinct:
  "THEMES_LIGHT \<noteq> THEMES_DARK" "THEMES_DARK \<noteq> THEMES_LIGHT" "THEMES_LIGHT \<noteq> []" "THEMES_DARK \<noteq> []"
  by (simp_all add: THEMES_LIGHT_def THEMES_DARK_def js_def)

lemma applyTheme_data_theme:
  "data_theme (snd (applyTheme theme s)) = (if theme = THEMES_LIGHT then Some THEMES_LIGHT else None)"
  by (simp add: applyTheme_def Let_def split: option.splits)

lemma toggleTheme_data_theme:
  "themeToggle s \<noteq> None \<Longrightarrow>
   data_theme (snd (toggleTheme s)) =
     (if data_theme s = Some THEMES_LIGHT then None else Some THEMES_LIGHT)"
  by (auto simp add: toggleTheme_def Let_def applyTheme_data_theme themes_distinct)

lemma applyTheme_button: "themeToggle (snd (applyTheme theme s)) = None \<longleftrightarrow> themeToggle s = None"
  by (simp add: applyTheme_def Let_def split: option.splits)

lemma toggleTheme_button: "themeToggle (snd (toggleTheme s)) = None \<longleftrightarrow> themeToggle s = None"
  by (simp add: toggleTheme_def Let_def applyTheme_button split: option.splits)

lemma toggleTheme_no_button: "themeToggle s = None \<Longrightarrow> toggleTheme s = (Some TypeError, s)"
  by (simp add: toggleTheme_def)

lemma preferred_nonempty: "getPreferredTheme os_light s \<noteq> []"
  by (simp add: getPreferredTheme_def themes_distinct split: option.splits)

lemma applyTheme_persists:
  "themeIcon s \<noteq> None \<Longrightarrow> portfolio_theme (snd (applyTheme theme s)) = Some theme"
  by (auto simp add: applyTheme_def Let_def split: option.splits)

text \<open>
  C3: from a state whose \<open>data-theme\<close> attribute is \<open>light\<close> or absent, two
  toggles give back the attribute, and with it the current theme; with a toggle button
  on the page one toggle changes the current theme.
\<close>

theorem toggle_twice_restores_theme:
  assumes "data_theme s = None \<or> data_theme s = Some THEMES_LIGHT"
  shows "data_theme (snd (toggleTheme (snd (toggleTheme s)))) = data_theme s \<and>
         getCurrentTheme (snd (toggleTheme (snd (toggleTheme s)))) = getCurrentTheme s \<and>
         (themeToggle s \<noteq> None \<longrightarrow>
            getCurrentTheme (snd (toggleTheme s)) \<noteq> getCurrentTheme s)"
proof (cases "themeToggle s")
  case None
  then show ?thesis by (simp add: toggleTheme_no_button)
next
  case (Some button)
  then have b: "themeToggle s \<noteq> None" "themeToggle (snd (toggleTheme s)) \<noteq> None"
    by (simp_all add: toggleTheme_button)
  have "data_theme (snd (toggleTheme (snd (toggleTheme s)))) = data_theme s"
    using assms by (auto simp add: toggleTheme_data_theme b)
  moreover have "getCurrentTheme (snd (toggleTheme s)) \<noteq> getCurrentTheme s"
    using assms by (auto simp add: getCurrentTheme_def toggleTheme_data_theme b themes_distinct)
  ultimately show ?thesis by (simp add: getCurrentTheme_def)
qed

theorem toggle_twice_restores_theme_witness:
  "data_theme fresh_page = None \<and>
   data_theme (snd (toggleTheme fresh_page)) = Some THEMES_LIGHT \<and>
   data_theme (snd (toggleTheme (snd (toggleTheme fresh_page)))) = None \<and>
   data_theme (snd (toggleTheme (snd (toggleTheme (snd (toggleTheme fresh_page)))))) = Some THEMES_LIGHT"
proof -
  have a: "data_theme fresh_page = None" by (simp add: fresh_page_def)
  have b: "data_theme (snd (toggleTheme fresh_page)) = Some THEMES_LIGHT"
    by (simp add: fresh_page_def toggleTheme_def applyTheme_def Let_def)
  show ?thesis
    using toggle_twice_restores_theme [of fresh_page]
      toggle_twice_restores_theme [of "snd (toggleTheme fresh_page)"]
    by (simp add: a b)
qed

text \<open>
  C4: with a non-empty value stored under the theme key, a change event of the operating
  system's colour scheme leaves the state as it is; with no value stored, it applies the
  theme of the operating system. The state after the theme resolution of the page load
  is of the first kind, whatever was stored before.
\<close>

theorem os_change_respects_persisted_choice:
  "(portfolio_theme s = Some saved \<and> saved \<noteq> [] \<longrightarrow>
      handleSystemThemeChange matches s = (None, s)) \<and>
   (portfolio_theme s = None \<longrightarrow>
      handleSystemThemeChange matches s =
        applyTheme (if matches then THEMES_LIGHT else THEMES_DARK) s \<and>
      data_theme (snd (handleSystemThemeChange matches s)) =
        (if matches then Some THEMES_LIGHT else None)) \<and>
   (themeIcon s \<noteq> None \<longrightarrow>
      handleSystemThemeChange matches (snd (initThemeToggle os_light s)) =
        (None, snd (initThemeToggle os_light s)))"
proof -
  have "handleSystemThemeChange matches (snd (initThemeToggle os_light s)) =
        (None, snd (initThemeToggle os_light s))" if "themeIcon s \<noteq> None"
    using applyTheme_persists [OF that, of "getPreferredTheme os_light s"]
    by (simp add: handleSystemThemeChange_def initThemeToggle_def preferred_nonempty)
  then show ?thesis
    by (auto simp add: handleSystemThemeChange_def applyTheme_data_theme themes_distinct)
qed

theorem os_change_respects_persisted_choice_witness:
  "portfolio_theme fresh_page = None \<and>
   data_theme (snd (handleSystemThemeChange True fresh_page)) = Some THEMES_LIGHT \<and>
   data_theme (snd (handleSystemThemeChange False fresh_page)) = None \<and>
   portfolio_theme (snd (toggleTheme fresh_page)) = Some THEMES_LIGHT \<and>
   handleSystemThemeChange False (snd (toggleTheme fresh_page)) =
     (None, snd (toggleTheme fresh_page)) \<and>
   portfolio_theme (snd (initThemeToggle (Some True) fresh_page)) = Some THEMES_LIGHT \<and>
   handleSystemThemeChange False (snd (initThemeToggle (Some True) fresh_page)) =
     (None, snd (initThemeToggle (Some True) fresh_page))"
proof -
  have a: "portfolio_theme fresh_page = None" "themeIcon fresh_page \<noteq> None"
    by (simp_all add: fresh_page_def)
  have b: "portfolio_theme (snd (toggleTheme fresh_page)) = Some THEMES_LIGHT"
    by (simp add: fresh_page_def toggleTheme_def applyTheme_def Let_def)
  have c: "portfolio_theme (snd (initThemeToggle (Some True) fresh_page)) = Some THEMES_LIGHT"
    by (simp add: fresh_page_def initThemeToggle_def getPreferredTheme_def applyTheme_def Let_def)
  show ?thesis
    using os_change_respects_persisted_choice [of fresh_page _ True "Some True"]
      os_change_respects_persisted_choice [of fresh_page _ False "Some True"]
      os_change_respects_persisted_choice [of "snd (toggleTheme fresh_page)" THEMES_LIGHT False]
    by (simp add: a b c themes_distinct applyTheme_data_theme)
qed

section \<open>Properties of the navigation controller\<close>

text \<open>
  C7, as amended. With sections of offsets 0 and 500 and heights 500 and 700, at scroll
  position 600 and under a navbar less than 500 pixels high, the scroll handler leaves
  active exactly the links whose \<open>href\<close> is \<open>#\<close> followed by the id of the second
  section; of two links to the two sections the second is active and the first is not.
\<close>

theorem scroll_marks_second_link:
  "navbar s = Some nb \<and> navbar_offsetHeight nb < 500 \<longrightarrow>
     fst (handleScroll 600
            [\<lparr>section_id = id1, offsetTop = 0, offsetHeight = 500\<rparr>,
             \<lparr>section_id = id2, offsetTop = 500, offsetHeight = 700\<rparr>] s) = None \<and>
     navLinks (snd (handleScroll 600
            [\<lparr>section_id = id1, offsetTop = 0, offsetHeight = 500\<rparr>,
             \<lparr>section_id = id2, offsetTop = 500, offsetHeight = 700\<rparr>] s))
       = map (\<lambda>link. link\<lparr>active := (href link = Some (0x23 # id2))\<rparr>) (navLinks s) \<and>
     (navLinks s = [link1, link2] \<and> href link1 = Some (0x23 # id1) \<and>
      href link2 = Some (0x23 # id2) \<and> id1 \<noteq> id2 \<longrightarrow>
        map active (navLinks (snd (handleScroll 600
            [\<lparr>section_id = id1, offsetTop = 0, offsetHeight = 500\<rparr>,
             \<lparr>section_id = id2, offsetTop = 500, offsetHeight = 700\<rparr>] s))) = [False, True])"
  by (simp add: handleScroll_def scroll_section_def updateActiveLink_def Let_def)

theorem scroll_marks_second_link_witness:
  "navbar (two_links 70) = Some \<lparr>scrolled = False, navbar_offsetHeight = 70\<rparr> \<and>
   map active (navLinks (two_links 70)) = [True, False] \<and>
   map active (navLinks (snd (handleScroll 600 two_sections (two_links 70)))) = [False, True]"
  using scroll_marks_second_link
    [of "two_links 70" "\<lparr>scrolled = False, navbar_offsetHeight = 70\<rparr>" "js ''home''" "js ''about''"
        "\<lparr>href = Some (js ''#home''), active = True\<rparr>"
        "\<lparr>href = Some (js ''#about''), active = False\<rparr>"]
  by (simp add: two_links_def two_sections_def js_def)

text \<open>
  C7 as stated fails under a navbar 500 pixels high: the handler tests the scroll
  position against the section's extent moved up by the navbar's height and 100 more, so
  no section matches at 600 and the first link stays the active one.
\<close>

theorem scroll_marks_second_link_counterexample:
  "map active (navLinks (two_links 500)) = [True, False] \<and>
   fst (handleScroll 600 two_sections (two_links 500)) = None \<and>
   \<not> map active (navLinks (snd (handleScroll 600 two_sections (two_links 500)))) = [False, True]"
  by (simp add: two_links_def two_sections_def handleScroll_def scroll_section_def
      updateActiveLink_def Let_def js_def)

end
